theory Spec2Isabelle
  imports Complex_Main "HOL-Library.Multiset"
begin

section \<open>The runtime the class is written against\<close>

text \<open>
  \<^verbatim>\<open>Collection<K, V>\<close> extends the built-in \<^verbatim>\<open>Map<K, V>\<close>. A Map keeps its entries in
  insertion order with unique keys: the entries are an association list. Keys and
  values are compared with HOL equality, which stands for SameValueZero on keys and
  for \<^verbatim>\<open>===\<close> on values: a value is a primitive value or the reference of an
  object, and \<^verbatim>\<open>NaN\<close> (which is not \<^verbatim>\<open>===\<close> to itself) is not modelled.
\<close>

text \<open>\<^verbatim>\<open>Map.prototype.set\<close>: an existing key keeps its position and takes the new
  value, a new key is appended at the end.\<close>

fun Map_set :: "'k \<Rightarrow> 'v \<Rightarrow> ('k \<times> 'v) list \<Rightarrow> ('k \<times> 'v) list" where
  "Map_set k v [] = [(k, v)]"
| "Map_set k v (e # es) = (if fst e = k then (k, v) # es else e # Map_set k v es)"

text \<open>\<^verbatim>\<open>Map.prototype.has\<close>, \<^verbatim>\<open>get\<close> (\<open>None\<close> is \<^verbatim>\<open>undefined\<close>) and \<^verbatim>\<open>delete\<close>
  (the entries that remain; the boolean it returns is \<open>Map_has\<close> before the call).\<close>

definition Map_has :: "'k \<Rightarrow> ('k \<times> 'v) list \<Rightarrow> bool" where
  "Map_has k es = (k \<in> fst ` set es)"

definition Map_get :: "'k \<Rightarrow> ('k \<times> 'v) list \<Rightarrow> 'v option" where
  "Map_get k es = map_of es k"

definition Map_delete :: "'k \<Rightarrow> ('k \<times> 'v) list \<Rightarrow> ('k \<times> 'v) list" where
  "Map_delete k es = filter (\<lambda>e. fst e \<noteq> k) es"

text \<open>
  Array reads and \<^verbatim>\<open>Array.prototype.splice(start, 1)\<close> on an integer \<open>start\<close>, with
  the clamping ECMAScript prescribes: a negative start counts from the end, a start
  past the end removes nothing. The pair is (removed elements, remaining array).
  An out-of-range read \<^verbatim>\<open>arr[i]\<close> is \<^verbatim>\<open>undefined\<close>, here \<open>None\<close>.
\<close>

definition index :: "'a list \<Rightarrow> int \<Rightarrow> 'a option" where
  "index arr i = (if 0 \<le> i \<and> i < int (length arr) then Some (arr ! nat i) else None)"

definition splice1 :: "int \<Rightarrow> 'a list \<Rightarrow> 'a list \<times> 'a list" where
  "splice1 start arr =
     (let len = int (length arr);
          actualStart = (if start < 0 then max (len + start) 0 else min start len);
          deleteCount = min 1 (len - actualStart)
      in (take (nat deleteCount) (drop (nat actualStart) arr),
          take (nat actualStart) arr @ drop (nat (actualStart + deleteCount)) arr))"

text \<open>
  \<^verbatim>\<open>Array.prototype.sort(compare)\<close> is stable (ECMAScript 2019). It is modelled by a
  stable insertion sort: an element goes in front of the first element it does not
  compare greater than, and elements are inserted from the right, so that elements
  comparing equal keep their order. For a consistent comparator every stable sort
  gives this result.
\<close>

fun insert_by :: "('a \<Rightarrow> 'a \<Rightarrow> int) \<Rightarrow> 'a \<Rightarrow> 'a list \<Rightarrow> 'a list" where
  "insert_by cmp x [] = [x]"
| "insert_by cmp x (y # ys) = (if cmp x y \<le> 0 then x # y # ys else y # insert_by cmp x ys)"

definition Array_sort :: "('a \<Rightarrow> 'a \<Rightarrow> int) \<Rightarrow> 'a list \<Rightarrow> 'a list" where
  "Array_sort cmp arr = foldr (insert_by cmp) arr []"

section \<open>Objects and the store\<close>

text \<open>
  Collections and arrays are objects: two references may name the same object, and
  \<^verbatim>\<open>===\<close> on objects compares references. A reference is an address into a store.
  A collection object holds the Map's entries and the two private fields
  \<^verbatim>\<open>_array\<close> and \<^verbatim>\<open>_keyArray\<close>, each \<^verbatim>\<open>null\<close> (\<open>None\<close>) or the address of an array.
\<close>

type_synonym ref = nat

record ('k, 'v) collection =
  entries :: "('k \<times> 'v) list"
  array_cache :: "ref option"
  keyArray_cache :: "ref option"

text \<open>
  The store: the collection objects, the arrays of values, the arrays of keys, each
  a list indexed by address (allocation appends), and the ambient random source:
  \<open>rng w i\<close> is the result of the \<open>i\<close>-th coming call of \<^verbatim>\<open>Math.random()\<close>.
\<close>

record ('k, 'v) world =
  colls :: "('k, 'v) collection list"
  varrs :: "'v list list"
  karrs :: "'k list list"
  rng :: "nat \<Rightarrow> real"

definition Math_random :: "('k, 'v) world \<Rightarrow> real \<times> ('k, 'v) world" where
  "Math_random w = (rng w 0, w\<lparr>rng := \<lambda>i. rng w (Suc i)\<rparr>)"

definition put_coll :: "ref \<Rightarrow> ('k, 'v) collection \<Rightarrow> ('k, 'v) world \<Rightarrow> ('k, 'v) world" where
  "put_coll r c w = w\<lparr>colls := (colls w)[r := c]\<rparr>"

definition new_varr :: "'v list \<Rightarrow> ('k, 'v) world \<Rightarrow> ref \<times> ('k, 'v) world" where
  "new_varr xs w = (length (varrs w), w\<lparr>varrs := varrs w @ [xs]\<rparr>)"

definition new_karr :: "'k list \<Rightarrow> ('k, 'v) world \<Rightarrow> ref \<times> ('k, 'v) world" where
  "new_karr xs w = (length (karrs w), w\<lparr>karrs := karrs w @ [xs]\<rparr>)"

section \<open>The class Collection\<close>

text \<open>
  Every method takes the store and the receiver \<open>this\<close> and returns its result with
  the new store. A method that returns \<^verbatim>\<open>this\<close> returns the store only. A callback
  is a function that may read the store it is called in; \<^verbatim>\<open>thisArg\<close> only rebinds
  the callback's own \<^verbatim>\<open>this\<close> and is left out.
\<close>

definition size_coll :: "('k, 'v) world \<Rightarrow> ref \<Rightarrow> nat" where
  "size_coll w this = length (entries (colls w ! this))"

definition get :: "('k, 'v) world \<Rightarrow> ref \<Rightarrow> 'k \<Rightarrow> 'v option" where
  "get w this key = Map_get key (entries (colls w ! this))"

definition has :: "('k, 'v) world \<Rightarrow> ref \<Rightarrow> 'k \<Rightarrow> bool" where
  "has w this key = Map_has key (entries (colls w ! this))"

text \<open>The Map's own methods on the receiver (\<^verbatim>\<open>super.set\<close>, \<^verbatim>\<open>super.delete\<close>,
  \<^verbatim>\<open>super.clear\<close>) and the assignments to the two fields.\<close>

definition super_set :: "('k, 'v) world \<Rightarrow> ref \<Rightarrow> 'k \<Rightarrow> 'v \<Rightarrow> ('k, 'v) world" where
  "super_set w this key val =
     put_coll this ((colls w ! this)\<lparr>entries := Map_set key val (entries (colls w ! this))\<rparr>) w"

definition super_delete :: "('k, 'v) world \<Rightarrow> ref \<Rightarrow> 'k \<Rightarrow> bool \<times> ('k, 'v) world" where
  "super_delete w this key =
     (Map_has key (entries (colls w ! this)),
      put_coll this ((colls w ! this)\<lparr>entries := Map_delete key (entries (colls w ! this))\<rparr>) w)"

definition super_clear :: "('k, 'v) world \<Rightarrow> ref \<Rightarrow> ('k, 'v) world" where
  "super_clear w this = put_coll this ((colls w ! this)\<lparr>entries := []\<rparr>) w"

definition assign_array :: "('k, 'v) world \<Rightarrow> ref \<Rightarrow> ref option \<Rightarrow> ('k, 'v) world" where
  "assign_array w this a = put_coll this ((colls w ! this)\<lparr>array_cache := a\<rparr>) w"

definition assign_keyArray :: "('k, 'v) world \<Rightarrow> ref \<Rightarrow> ref option \<Rightarrow> ('k, 'v) world" where
  "assign_keyArray w this a = put_coll this ((colls w ! this)\<lparr>keyArray_cache := a\<rparr>) w"

definition set_coll :: "('k, 'v) world \<Rightarrow> ref \<Rightarrow> 'k \<Rightarrow> 'v \<Rightarrow> ('k, 'v) world" where
  "set_coll w this key val =
     super_set (assign_keyArray (assign_array w this None) this None) this key val"

definition delete :: "('k, 'v) world \<Rightarrow> ref \<Rightarrow> 'k \<Rightarrow> bool \<times> ('k, 'v) world" where
  "delete w this key =
     super_delete (assign_keyArray (assign_array w this None) this None) this key"

definition clear :: "('k, 'v) world \<Rightarrow> ref \<Rightarrow> ('k, 'v) world" where
  "clear w this = super_clear w this"

text \<open>The constructor: \<^verbatim>\<open>super(entries)\<close> allocates the empty Map and adds each pair
  with \<^verbatim>\<open>this.set\<close>; then both fields are defined as \<^verbatim>\<open>null\<close>.\<close>

definition new_Collection :: "('k \<times> 'v) list \<Rightarrow> ('k, 'v) world \<Rightarrow> ref \<times> ('k, 'v) world" where
  "new_Collection es w =
     (let this = length (colls w);
          w0 = w\<lparr>colls := colls w @ [\<lparr>entries = [], array_cache = None, keyArray_cache = None\<rparr>]\<rparr>;
          w1 = foldl (\<lambda>w' (k, v). set_coll w' this k v) w0 es
      in (this, assign_keyArray (assign_array w1 this None) this None))"

text \<open>\<^verbatim>\<open>this._array?.length\<close> is \<^verbatim>\<open>undefined\<close> (\<open>None\<close>) when the field is \<^verbatim>\<open>null\<close>;
  the snapshot is rebuilt as a new array whenever that differs from the size.\<close>

definition array :: "('k, 'v) world \<Rightarrow> ref \<Rightarrow> ref \<times> ('k, 'v) world" where
  "array w this =
     (case array_cache (colls w ! this) of
        None \<Rightarrow>
          (let (a, w') = new_varr (map snd (entries (colls w ! this))) w
           in (a, assign_array w' this (Some a)))
      | Some a0 \<Rightarrow>
          if length (varrs w ! a0) \<noteq> size_coll w this
          then (let (a, w') = new_varr (map snd (entries (colls w ! this))) w
                in (a, assign_array w' this (Some a)))
          else (a0, w))"

definition keyArray :: "('k, 'v) world \<Rightarrow> ref \<Rightarrow> ref \<times> ('k, 'v) world" where
  "keyArray w this =
     (case keyArray_cache (colls w ! this) of
        None \<Rightarrow>
          (let (a, w') = new_karr (map fst (entries (colls w ! this))) w
           in (a, assign_keyArray w' this (Some a)))
      | Some a0 \<Rightarrow>
          if length (karrs w ! a0) \<noteq> size_coll w this
          then (let (a, w') = new_karr (map fst (entries (colls w ! this))) w
                in (a, assign_keyArray w' this (Some a)))
          else (a0, w))"

text \<open>
  \<^verbatim>\<open>random\<close> and \<^verbatim>\<open>randomKey\<close> return one element (or \<^verbatim>\<open>undefined\<close>) without an
  amount and an array with one. \<^verbatim>\<open>arr.slice()\<close> allocates a copy, and each of the
  \<^verbatim>\<open>Array.from\<close> callbacks splices one element out of that copy, at the index
  \<^verbatim>\<open>Math.floor(Math.random() * arr.length)\<close>. Amounts are integers.
\<close>

datatype 'a result = Single "'a option" | Multiple "'a option list"

fun sample_v :: "nat \<Rightarrow> ref \<Rightarrow> ('k, 'v) world \<Rightarrow> 'v option list \<times> ('k, 'v) world" where
  "sample_v 0 arr w = ([], w)"
| "sample_v (Suc n) arr w =
     (let (r, w1) = Math_random w;
          (removed, remaining) = splice1 \<lfloor>r * real (length (varrs w1 ! arr))\<rfloor> (varrs w1 ! arr);
          w2 = w1\<lparr>varrs := (varrs w1)[arr := remaining]\<rparr>;
          (xs, w3) = sample_v n arr w2
      in (index removed 0 # xs, w3))"

fun sample_k :: "nat \<Rightarrow> ref \<Rightarrow> ('k, 'v) world \<Rightarrow> 'k option list \<times> ('k, 'v) world" where
  "sample_k 0 arr w = ([], w)"
| "sample_k (Suc n) arr w =
     (let (r, w1) = Math_random w;
          (removed, remaining) = splice1 \<lfloor>r * real (length (karrs w1 ! arr))\<rfloor> (karrs w1 ! arr);
          w2 = w1\<lparr>karrs := (karrs w1)[arr := remaining]\<rparr>;
          (xs, w3) = sample_k n arr w2
      in (index removed 0 # xs, w3))"

definition random :: "('k, 'v) world \<Rightarrow> ref \<Rightarrow> int option \<Rightarrow> 'v result \<times> ('k, 'v) world" where
  "random w this amount =
     (let (arr, w1) = array w this
      in case amount of
           None \<Rightarrow>
             (let (r, w2) = Math_random w1
              in (Single (index (varrs w2 ! arr) \<lfloor>r * real (length (varrs w2 ! arr))\<rfloor>), w2))
         | Some n \<Rightarrow>
             if length (varrs w1 ! arr) = 0 \<or> n = 0 then (Multiple [], w1)
             else (let (arr', w2) = new_varr (varrs w1 ! arr) w1;
                       (xs, w3) = sample_v (nat (min n (int (length (varrs w2 ! arr'))))) arr' w2
                   in (Multiple xs, w3)))"

definition randomKey :: "('k, 'v) world \<Rightarrow> ref \<Rightarrow> int option \<Rightarrow> 'k result \<times> ('k, 'v) world" where
  "randomKey w this amount =
     (let (arr, w1) = keyArray w this
      in case amount of
           None \<Rightarrow>
             (let (r, w2) = Math_random w1
              in (Single (index (karrs w2 ! arr) \<lfloor>r * real (length (karrs w2 ! arr))\<rfloor>), w2))
         | Some n \<Rightarrow>
             if length (karrs w1 ! arr) = 0 \<or> n = 0 then (Multiple [], w1)
             else (let (arr', w2) = new_karr (karrs w1 ! arr) w1;
                       (xs, w3) = sample_k (nat (min n (int (length (karrs w2 ! arr'))))) arr' w2
                   in (Multiple xs, w3)))"

text \<open>\<^verbatim>\<open>sweep\<close> iterates the receiver while deleting from it. A Map iterator is live,
  and only the entry being visited is deleted, so the entries still to visit are
  the rest of the list the loop started with.\<close>

fun sweep_loop ::
  "(('k, 'v) world \<Rightarrow> 'v \<Rightarrow> 'k \<Rightarrow> ref \<Rightarrow> bool) \<Rightarrow> ref \<Rightarrow> ('k \<times> 'v) list \<Rightarrow> ('k, 'v) world \<Rightarrow> ('k, 'v) world" where
  "sweep_loop fn this [] w = w"
| "sweep_loop fn this (e # rest) w =
     sweep_loop fn this rest (if fn w (snd e) (fst e) this then snd (delete w this (fst e)) else w)"

definition sweep ::
  "(('k, 'v) world \<Rightarrow> 'v \<Rightarrow> 'k \<Rightarrow> ref \<Rightarrow> bool) \<Rightarrow> ('k, 'v) world \<Rightarrow> ref \<Rightarrow> int \<times> ('k, 'v) world" where
  "sweep fn w this =
     (let previousSize = size_coll w this;
          w' = sweep_loop fn this (entries (colls w ! this)) w
      in (int previousSize - int (size_coll w' this), w'))"

fun filter_loop ::
  "(('k, 'v) world \<Rightarrow> 'v \<Rightarrow> 'k \<Rightarrow> ref \<Rightarrow> bool) \<Rightarrow> ref \<Rightarrow> ref \<Rightarrow> ('k \<times> 'v) list \<Rightarrow> ('k, 'v) world \<Rightarrow> ('k, 'v) world" where
  "filter_loop fn this results [] w = w"
| "filter_loop fn this results (e # rest) w =
     filter_loop fn this results rest
       (if fn w (snd e) (fst e) this then set_coll w results (fst e) (snd e) else w)"

definition filter_coll ::
  "(('k, 'v) world \<Rightarrow> 'v \<Rightarrow> 'k \<Rightarrow> ref \<Rightarrow> bool) \<Rightarrow> ('k, 'v) world \<Rightarrow> ref \<Rightarrow> ref \<times> ('k, 'v) world" where
  "filter_coll fn w this =
     (let (results, w1) = new_Collection [] w
      in (results, filter_loop fn this results (entries (colls w1 ! this)) w1))"

text \<open>
  \<^verbatim>\<open>reduce\<close>. An initial value of \<^verbatim>\<open>undefined\<close> is no initial value: \<open>None\<close>. In the
  second loop the flag \<^verbatim>\<open>first\<close> is true exactly as long as \<^verbatim>\<open>accumulator\<close> is
  unassigned, so the pair of variables is one optional value: \<open>None\<close> for
  \<^verbatim>\<open>first = true\<close>, \<open>Some a\<close> for \<^verbatim>\<open>first = false\<close> and accumulator \<open>a\<close>.
\<close>

datatype error = TypeError string

fun reduce_loop ::
  "(('k, 'v) world \<Rightarrow> 'v \<Rightarrow> 'v \<Rightarrow> 'k \<Rightarrow> ref \<Rightarrow> 'v) \<Rightarrow> ('k, 'v) world \<Rightarrow> ref \<Rightarrow> ('k \<times> 'v) list \<Rightarrow> 'v option \<Rightarrow> 'v option" where
  "reduce_loop fn w this [] acc = acc"
| "reduce_loop fn w this (e # rest) acc =
     reduce_loop fn w this rest
       (case acc of None \<Rightarrow> Some (snd e) | Some a \<Rightarrow> Some (fn w a (snd e) (fst e) this))"

definition reduce ::
  "(('k, 'v) world \<Rightarrow> 'v \<Rightarrow> 'v \<Rightarrow> 'k \<Rightarrow> ref \<Rightarrow> 'v) \<Rightarrow> 'v option \<Rightarrow> ('k, 'v) world \<Rightarrow> ref \<Rightarrow> error + 'v" where
  "reduce fn initialValue w this =
     (case initialValue of
        Some i \<Rightarrow>
          Inr (foldl (\<lambda>accumulator e. fn w accumulator (snd e) (fst e) this) i (entries (colls w ! this)))
      | None \<Rightarrow>
          (case reduce_loop fn w this (entries (colls w ! this)) None of
             None \<Rightarrow> Inl (TypeError ''Reduce of empty collection with no initial value'')
           | Some accumulator \<Rightarrow> Inr accumulator))"

text \<open>\<^verbatim>\<open>clone\<close> hands the receiver to the constructor, which iterates its entries.\<close>

definition clone :: "('k, 'v) world \<Rightarrow> ref \<Rightarrow> ref \<times> ('k, 'v) world" where
  "clone w this = new_Collection (entries (colls w ! this)) w"

definition concat_coll :: "('k, 'v) world \<Rightarrow> ref \<Rightarrow> ref list \<Rightarrow> ref \<times> ('k, 'v) world" where
  "concat_coll w this collections =
     (let (newColl, w1) = clone w this
      in (newColl,
          foldl (\<lambda>w' coll. foldl (\<lambda>w'' (key, val). set_coll w'' newColl key val) w'
                              (entries (colls w' ! coll)))
            w1 collections))"

text \<open>\<^verbatim>\<open>equals\<close>: the argument is \<^verbatim>\<open>null\<close> or \<^verbatim>\<open>undefined\<close> (\<open>None\<close>) or a reference.\<close>

fun equals_loop :: "('k, 'v) world \<Rightarrow> ref \<Rightarrow> ('k \<times> 'v) list \<Rightarrow> bool" where
  "equals_loop w collection [] = True"
| "equals_loop w collection (e # rest) =
     (if \<not> has w collection (fst e) \<or> Some (snd e) \<noteq> get w collection (fst e) then False
      else equals_loop w collection rest)"

definition equals :: "('k, 'v) world \<Rightarrow> ref \<Rightarrow> ref option \<Rightarrow> bool" where
  "equals w this arg =
     (case arg of
        None \<Rightarrow> False
      | Some collection \<Rightarrow>
          if this = collection then True
          else if size_coll w this \<noteq> size_coll w collection then False
          else equals_loop w collection (entries (colls w ! this)))"

text \<open>\<^verbatim>\<open>sort\<close>, and its default comparator
  \<^verbatim>\<open>Number(x > y) || Number(x === y) - 1\<close> on values that are linearly ordered.\<close>

definition default_compare :: "'v::linorder \<Rightarrow> 'v \<Rightarrow> 'k \<Rightarrow> 'k \<Rightarrow> int" where
  "default_compare x y kx ky = (if x > y then 1 else (if x = y then 1 else 0) - 1)"

definition sort_coll ::
  "('k, 'v) world \<Rightarrow> ref \<Rightarrow> ('v \<Rightarrow> 'v \<Rightarrow> 'k \<Rightarrow> 'k \<Rightarrow> int) \<Rightarrow> ('k, 'v) world" where
  "sort_coll w this compareFunction =
     (let es = Array_sort (\<lambda>a b. compareFunction (snd a) (snd b) (fst a) (fst b))
                 (entries (colls w ! this));
          w1 = super_clear w this;
          w2 = assign_array w1 this None;
          w3 = assign_keyArray w2 this None
      in foldl (\<lambda>w' (k, v). super_set w' this k v) w3 es)"

definition difference :: "('k, 'v) world \<Rightarrow> ref \<Rightarrow> ref \<Rightarrow> ref \<times> ('k, 'v) world" where
  "difference w this other =
     (let (a, w1) = filter_coll (\<lambda>w' _ k _. \<not> has w' this k) w other;
          (b, w2) = filter_coll (\<lambda>w' _ k _. \<not> has w' other k) w1 this
      in concat_coll w2 a [b])"

section \<open>Well-formed stores and sequences of operations\<close>

text \<open>
  What every store built by the constructor and the methods satisfies. A snapshot
  field is \<^verbatim>\<open>null\<close> or the address of an allocated array that either is the list
  derived from the current entries or differs from it in length (it is stale, and
  the next read replaces it). The keys of a Map are distinct.
\<close>

definition cache_ok :: "'a list list \<Rightarrow> ref option \<Rightarrow> 'a list \<Rightarrow> bool" where
  "cache_ok arrs cache derived =
     (case cache of
        None \<Rightarrow> True
      | Some a \<Rightarrow> a < length arrs \<and> (arrs ! a = derived \<or> length (arrs ! a) \<noteq> length derived))"

definition coll_ok :: "('k, 'v) world \<Rightarrow> ('k, 'v) collection \<Rightarrow> bool" where
  "coll_ok w c =
     (distinct (map fst (entries c)) \<and>
      cache_ok (varrs w) (array_cache c) (map snd (entries c)) \<and>
      cache_ok (karrs w) (keyArray_cache c) (map fst (entries c)))"

definition world_ok :: "('k, 'v) world \<Rightarrow> bool" where
  "world_ok w = list_all (coll_ok w) (colls w)"

definition empty_world :: "(nat \<Rightarrow> real) \<Rightarrow> ('k, 'v) world" where
  "empty_world g = \<lparr>colls = [], varrs = [], karrs = [], rng = g\<rparr>"

text \<open>Random sources for the examples: every draw is 0, so that every index drawn is
  0, and every draw is one half.\<close>

definition zeros :: "nat \<Rightarrow> real" where
  "zeros i = 0"

definition halves :: "nat \<Rightarrow> real" where
  "halves i = 1 / 2"

text \<open>
  The operations on one collection that write it or the store: the mutations, and
  the reads that fill a snapshot field. A sequence of them is run from left to
  right.
\<close>

datatype ('k, 'v) operation =
    Set 'k 'v
  | Delete 'k
  | Clear
  | Sweep "('k, 'v) world \<Rightarrow> 'v \<Rightarrow> 'k \<Rightarrow> ref \<Rightarrow> bool"
  | Sort "'v \<Rightarrow> 'v \<Rightarrow> 'k \<Rightarrow> 'k \<Rightarrow> int"
  | Array
  | KeyArray
  | Random "int option"
  | RandomKey "int option"

fun apply_operation :: "ref \<Rightarrow> ('k, 'v) world \<Rightarrow> ('k, 'v) operation \<Rightarrow> ('k, 'v) world" where
  "apply_operation this w (Set k v) = set_coll w this k v"
| "apply_operation this w (Delete k) = snd (delete w this k)"
| "apply_operation this w Clear = clear w this"
| "apply_operation this w (Sweep fn) = snd (sweep fn w this)"
| "apply_operation this w (Sort cmp) = sort_coll w this cmp"
| "apply_operation this w Array = snd (array w this)"
| "apply_operation this w KeyArray = snd (keyArray w this)"
| "apply_operation this w (Random amount) = snd (random w this amount)"
| "apply_operation this w (RandomKey amount) = snd (randomKey w this amount)"

definition run :: "ref \<Rightarrow> ('k, 'v) operation list \<Rightarrow> ('k, 'v) world \<Rightarrow> ('k, 'v) world" where
  "run this ops w = foldl (apply_operation this) w ops"

section \<open>Properties of the runtime and of the store\<close>

subsection \<open>The Map operations\<close>

lemma Map_set_fresh: "k \<notin> fst ` set es \<Longrightarrow> Map_set k v es = es @ [(k, v)]"
  by (induction es) auto

lemma keys_Map_set: "fst ` set (Map_set k v es) = insert k (fst ` set es)"
  by (induction es) auto

lemma distinct_Map_set: "distinct (map fst es) \<Longrightarrow> distinct (map fst (Map_set k v es))"
  by (induction es) (auto simp: keys_Map_set)

lemma distinct_Map_delete: "distinct (map fst es) \<Longrightarrow> distinct (map fst (Map_delete k es))"
  by (simp add: Map_delete_def distinct_map_filter)

lemma foldl_Map_set_append:
  "distinct (map fst es) \<Longrightarrow> fst ` set m \<inter> fst ` set es = {} \<Longrightarrow>
   foldl (\<lambda>m (k, v). Map_set k v m) m es = m @ es"
proof (induction es arbitrary: m)
  case Nil
  then show ?case by simp
next
  case (Cons e es)
  obtain k v where e: "e = (k, v)" by (cases e)
  have fresh: "k \<notin> fst ` set m" using Cons.prems(2) by (auto simp: e)
  have "foldl (\<lambda>m (k, v). Map_set k v m) (m @ [(k, v)]) es = (m @ [(k, v)]) @ es"
    using Cons.prems by (intro Cons.IH) (auto simp: e)
  then show ?case by (simp add: e Map_set_fresh[OF fresh])
qed

subsection \<open>The mutations, as one write of the receiver\<close>

lemma reset_None:
  "array_cache c = None \<Longrightarrow> keyArray_cache c = None \<Longrightarrow>
   c\<lparr>array_cache := None, keyArray_cache := None, entries := es\<rparr> = c\<lparr>entries := es\<rparr>"
  by (cases c) simp

lemma set_coll_eq:
  "this < length (colls w) \<Longrightarrow>
   set_coll w this k v =
     put_coll this ((colls w ! this)\<lparr>array_cache := None, keyArray_cache := None, entries := Map_set k v (entries (colls w ! this))\<rparr>) w"
  by (simp add: set_coll_def super_set_def assign_array_def assign_keyArray_def put_coll_def)

lemma delete_eq:
  "this < length (colls w) \<Longrightarrow>
   delete w this k =
     (Map_has k (entries (colls w ! this)),
      put_coll this ((colls w ! this)\<lparr>array_cache := None, keyArray_cache := None, entries := Map_delete k (entries (colls w ! this))\<rparr>) w)"
  by (simp add: delete_def super_delete_def assign_array_def assign_keyArray_def put_coll_def)

lemma clear_eq: "clear w this = put_coll this ((colls w ! this)\<lparr>entries := []\<rparr>) w"
  by (simp add: clear_def super_clear_def)

subsection \<open>Well-formed stores\<close>

lemma cache_ok_None [simp]: "cache_ok arrs None d"
  by (simp add: cache_ok_def)

lemma cache_ok_ext:
  "cache_ok arrs c d \<Longrightarrow> length arrs \<le> length arrs' \<Longrightarrow> (\<And>a. a < length arrs \<Longrightarrow> arrs' ! a = arrs ! a)
   \<Longrightarrow> cache_ok arrs' c d"
  by (auto simp: cache_ok_def split: option.splits)

lemma world_ok_put_coll:
  "world_ok w \<Longrightarrow> coll_ok w c \<Longrightarrow> world_ok (put_coll r c w)"
  unfolding world_ok_def list_all_iff
  by (auto simp: put_coll_def coll_ok_def dest!: set_update_subset_insert[THEN subsetD])

lemma world_ok_nth: "world_ok w \<Longrightarrow> r < length (colls w) \<Longrightarrow> coll_ok w (colls w ! r)"
  by (simp add: world_ok_def list_all_length)

lemma coll_ok_reset:
  "distinct (map fst es) \<Longrightarrow> coll_ok w (c\<lparr>array_cache := None, keyArray_cache := None, entries := es\<rparr>)"
  by (simp add: coll_ok_def)

lemma coll_ok_clear: "coll_ok w c \<Longrightarrow> coll_ok w (c\<lparr>entries := []\<rparr>)"
  by (auto simp: coll_ok_def cache_ok_def split: option.splits)

lemma world_ok_set_coll: "world_ok w \<Longrightarrow> this < length (colls w) \<Longrightarrow> world_ok (set_coll w this k v)"
  by (simp add: set_coll_eq world_ok_put_coll coll_ok_reset distinct_Map_set world_ok_nth[unfolded coll_ok_def])

lemma world_ok_delete: "world_ok w \<Longrightarrow> this < length (colls w) \<Longrightarrow> world_ok (snd (delete w this k))"
  by (simp add: delete_eq world_ok_put_coll coll_ok_reset distinct_Map_delete world_ok_nth[unfolded coll_ok_def])

lemma world_ok_clear: "world_ok w \<Longrightarrow> this < length (colls w) \<Longrightarrow> world_ok (clear w this)"
  by (simp add: clear_eq world_ok_put_coll coll_ok_clear world_ok_nth)

subsection \<open>Stores that extend a store, and the two views\<close>

lemma coll_ok_ext:
  "coll_ok w c \<Longrightarrow> take (length (varrs w)) (varrs w') = varrs w \<Longrightarrow> take (length (karrs w)) (karrs w') = karrs w
   \<Longrightarrow> coll_ok w' c"
proof -
  assume ok: "coll_ok w c" and v: "take (length (varrs w)) (varrs w') = varrs w"
    and k: "take (length (karrs w)) (karrs w') = karrs w"
  have "length (take (length (varrs w)) (varrs w')) = length (varrs w)" using v by simp
  then have lv: "length (varrs w) \<le> length (varrs w')" by simp
  have "length (take (length (karrs w)) (karrs w')) = length (karrs w)" using k by simp
  then have lk: "length (karrs w) \<le> length (karrs w')" by simp
  have nv: "\<And>a. a < length (varrs w) \<Longrightarrow> varrs w' ! a = varrs w ! a"
    by (metis v nth_take)
  have nk: "\<And>a. a < length (karrs w) \<Longrightarrow> karrs w' ! a = karrs w ! a"
    by (metis k nth_take)
  from ok show ?thesis
    unfolding coll_ok_def using cache_ok_ext[OF _ lv nv] cache_ok_ext[OF _ lk nk] by blast
qed

lemma world_ok_ext:
  "world_ok w \<Longrightarrow> colls w' = colls w \<Longrightarrow> take (length (varrs w)) (varrs w') = varrs w
   \<Longrightarrow> take (length (karrs w)) (karrs w') = karrs w \<Longrightarrow> world_ok w'"
  unfolding world_ok_def list_all_iff using coll_ok_ext by metis

lemma coll_ok_array_fresh:
  "coll_ok w c \<Longrightarrow> a < length (varrs w) \<Longrightarrow> varrs w ! a = map snd (entries c) \<Longrightarrow> coll_ok w (c\<lparr>array_cache := Some a\<rparr>)"
  by (simp add: coll_ok_def cache_ok_def)

lemma coll_ok_keyArray_fresh:
  "coll_ok w c \<Longrightarrow> a < length (karrs w) \<Longrightarrow> karrs w ! a = map fst (entries c) \<Longrightarrow> coll_ok w (c\<lparr>keyArray_cache := Some a\<rparr>)"
  by (simp add: coll_ok_def cache_ok_def)

lemma array_rebuild:
  assumes "world_ok w" "this < length (colls w)"
  defines "w' \<equiv> assign_array (w\<lparr>varrs := varrs w @ [map snd (entries (colls w ! this))]\<rparr>) this (Some (length (varrs w)))"
  shows "world_ok w'"
    and "colls w' = (colls w)[this := (colls w ! this)\<lparr>array_cache := Some (length (varrs w))\<rparr>]"
    and "varrs w' = varrs w @ [map snd (entries (colls w ! this))]"
    and "karrs w' = karrs w" and "rng w' = rng w"
proof -
  let ?w1 = "w\<lparr>varrs := varrs w @ [map snd (entries (colls w ! this))]\<rparr>"
  have ok1: "world_ok ?w1" by (rule world_ok_ext[OF assms(1)]) simp_all
  have c: "coll_ok ?w1 (colls w ! this)" using world_ok_nth[OF ok1] assms(2) by simp
  have "coll_ok ?w1 ((colls w ! this)\<lparr>array_cache := Some (length (varrs w))\<rparr>)"
    by (rule coll_ok_array_fresh[OF c]) simp_all
  then show "world_ok w'" unfolding w'_def assign_array_def using world_ok_put_coll[OF ok1] by simp
  show "colls w' = (colls w)[this := (colls w ! this)\<lparr>array_cache := Some (length (varrs w))\<rparr>]"
    "varrs w' = varrs w @ [map snd (entries (colls w ! this))]" "karrs w' = karrs w" "rng w' = rng w"
    by (simp_all add: w'_def assign_array_def put_coll_def)
qed

lemma array_cases:
  "array w this = (length (varrs w), assign_array (w\<lparr>varrs := varrs w @ [map snd (entries (colls w ! this))]\<rparr>) this (Some (length (varrs w))))
   \<or> (\<exists>a. array_cache (colls w ! this) = Some a \<and> length (varrs w ! a) = length (entries (colls w ! this)) \<and> array w this = (a, w))"
  by (auto simp: array_def new_varr_def size_coll_def split: option.splits)

lemma array_spec:
  assumes "world_ok w" "this < length (colls w)" "array w this = (a, w')"
  shows "world_ok w'"
    and "colls w' = (colls w)[this := (colls w ! this)\<lparr>array_cache := Some a\<rparr>]"
    and "a < length (varrs w')"
    and "varrs w' ! a = map snd (entries (colls w ! this))"
    and "take (length (varrs w)) (varrs w') = varrs w"
    and "karrs w' = karrs w" and "rng w' = rng w"
proof -
  let ?P = "world_ok w' \<and> colls w' = (colls w)[this := (colls w ! this)\<lparr>array_cache := Some a\<rparr>] \<and>
    a < length (varrs w') \<and> varrs w' ! a = map snd (entries (colls w ! this)) \<and>
    take (length (varrs w)) (varrs w') = varrs w \<and> karrs w' = karrs w \<and> rng w' = rng w"
  from array_cases[of w this] have ?P
  proof
    assume "array w this = (length (varrs w), assign_array (w\<lparr>varrs := varrs w @ [map snd (entries (colls w ! this))]\<rparr>) this (Some (length (varrs w))))"
    with assms(3) have a: "a = length (varrs w)"
      and w': "w' = assign_array (w\<lparr>varrs := varrs w @ [map snd (entries (colls w ! this))]\<rparr>) this (Some (length (varrs w)))"
      by auto
    show ?P using array_rebuild[OF assms(1,2)] unfolding a w' by simp
  next
    assume "\<exists>a. array_cache (colls w ! this) = Some a \<and> length (varrs w ! a) = length (entries (colls w ! this)) \<and> array w this = (a, w)"
    with assms(3) have c: "array_cache (colls w ! this) = Some a" and l: "length (varrs w ! a) = length (entries (colls w ! this))"
      and w': "w' = w" by auto
    have "coll_ok w (colls w ! this)" by (rule world_ok_nth[OF assms(1,2)])
    with c l have "a < length (varrs w)" "varrs w ! a = map snd (entries (colls w ! this))"
      by (auto simp: coll_ok_def cache_ok_def)
    moreover have "(colls w ! this)\<lparr>array_cache := Some a\<rparr> = colls w ! this" using c by simp
    ultimately show ?P using assms(1) w' by simp
  qed
  then show "world_ok w'"
    and "colls w' = (colls w)[this := (colls w ! this)\<lparr>array_cache := Some a\<rparr>]"
    and "a < length (varrs w')"
    and "varrs w' ! a = map snd (entries (colls w ! this))"
    and "take (length (varrs w)) (varrs w') = varrs w"
    and "karrs w' = karrs w" and "rng w' = rng w" by blast+
qed

lemma keyArray_rebuild:
  assumes "world_ok w" "this < length (colls w)"
  defines "w' \<equiv> assign_keyArray (w\<lparr>karrs := karrs w @ [map fst (entries (colls w ! this))]\<rparr>) this (Some (length (karrs w)))"
  shows "world_ok w'"
    and "colls w' = (colls w)[this := (colls w ! this)\<lparr>keyArray_cache := Some (length (karrs w))\<rparr>]"
    and "karrs w' = karrs w @ [map fst (entries (colls w ! this))]"
    and "varrs w' = varrs w" and "rng w' = rng w"
proof -
  let ?w1 = "w\<lparr>karrs := karrs w @ [map fst (entries (colls w ! this))]\<rparr>"
  have ok1: "world_ok ?w1" by (rule world_ok_ext[OF assms(1)]) simp_all
  have c: "coll_ok ?w1 (colls w ! this)" using world_ok_nth[OF ok1] assms(2) by simp
  have "coll_ok ?w1 ((colls w ! this)\<lparr>keyArray_cache := Some (length (karrs w))\<rparr>)"
    by (rule coll_ok_keyArray_fresh[OF c]) simp_all
  then show "world_ok w'" unfolding w'_def assign_keyArray_def using world_ok_put_coll[OF ok1] by simp
  show "colls w' = (colls w)[this := (colls w ! this)\<lparr>keyArray_cache := Some (length (karrs w))\<rparr>]"
    "karrs w' = karrs w @ [map fst (entries (colls w ! this))]" "varrs w' = varrs w" "rng w' = rng w"
    by (simp_all add: w'_def assign_keyArray_def put_coll_def)
qed

lemma keyArray_cases:
  "keyArray w this = (length (karrs w), assign_keyArray (w\<lparr>karrs := karrs w @ [map fst (entries (colls w ! this))]\<rparr>) this (Some (length (karrs w))))
   \<or> (\<exists>a. keyArray_cache (colls w ! this) = Some a \<and> length (karrs w ! a) = length (entries (colls w ! this)) \<and> keyArray w this = (a, w))"
  by (auto simp: keyArray_def new_karr_def size_coll_def split: option.splits)

lemma keyArray_spec:
  assumes "world_ok w" "this < length (colls w)" "keyArray w this = (a, w')"
  shows "world_ok w'"
    and "colls w' = (colls w)[this := (colls w ! this)\<lparr>keyArray_cache := Some a\<rparr>]"
    and "a < length (karrs w')"
    and "karrs w' ! a = map fst (entries (colls w ! this))"
    and "take (length (karrs w)) (karrs w') = karrs w"
    and "varrs w' = varrs w" and "rng w' = rng w"
proof -
  let ?P = "world_ok w' \<and> colls w' = (colls w)[this := (colls w ! this)\<lparr>keyArray_cache := Some a\<rparr>] \<and>
    a < length (karrs w') \<and> karrs w' ! a = map fst (entries (colls w ! this)) \<and>
    take (length (karrs w)) (karrs w') = karrs w \<and> varrs w' = varrs w \<and> rng w' = rng w"
  from keyArray_cases[of w this] have ?P
  proof
    assume "keyArray w this = (length (karrs w), assign_keyArray (w\<lparr>karrs := karrs w @ [map fst (entries (colls w ! this))]\<rparr>) this (Some (length (karrs w))))"
    with assms(3) have a: "a = length (karrs w)"
      and w': "w' = assign_keyArray (w\<lparr>karrs := karrs w @ [map fst (entries (colls w ! this))]\<rparr>) this (Some (length (karrs w)))"
      by auto
    show ?P using keyArray_rebuild[OF assms(1,2)] unfolding a w' by simp
  next
    assume "\<exists>a. keyArray_cache (colls w ! this) = Some a \<and> length (karrs w ! a) = length (entries (colls w ! this)) \<and> keyArray w this = (a, w)"
    with assms(3) have c: "keyArray_cache (colls w ! this) = Some a" and l: "length (karrs w ! a) = length (entries (colls w ! this))"
      and w': "w' = w" by auto
    have "coll_ok w (colls w ! this)" by (rule world_ok_nth[OF assms(1,2)])
    with c l have "a < length (karrs w)" "karrs w ! a = map fst (entries (colls w ! this))"
      by (auto simp: coll_ok_def cache_ok_def)
    moreover have "(colls w ! this)\<lparr>keyArray_cache := Some a\<rparr> = colls w ! this" using c by simp
    ultimately show ?P using assms(1) w' by simp
  qed
  then show "world_ok w'"
    and "colls w' = (colls w)[this := (colls w ! this)\<lparr>keyArray_cache := Some a\<rparr>]"
    and "a < length (karrs w')"
    and "karrs w' ! a = map fst (entries (colls w ! this))"
    and "take (length (karrs w)) (karrs w') = karrs w"
    and "varrs w' = varrs w" and "rng w' = rng w" by blast+
qed

subsection \<open>sweep and sort keep the store well formed\<close>

lemma length_colls_put_coll [simp]: "length (colls (put_coll r c w)) = length (colls w)"
  by (simp add: put_coll_def)

lemma length_colls_set_coll [simp]: "length (colls (set_coll w this k v)) = length (colls w)"
  by (simp add: set_coll_def super_set_def assign_array_def assign_keyArray_def)

lemma length_colls_delete [simp]: "length (colls (snd (delete w this k))) = length (colls w)"
  by (simp add: delete_def super_delete_def assign_array_def assign_keyArray_def)

lemma length_colls_clear [simp]: "length (colls (clear w this)) = length (colls w)"
  by (simp add: clear_def super_clear_def)

lemma sweep_loop_ok:
  "world_ok w \<Longrightarrow> this < length (colls w) \<Longrightarrow>
   world_ok (sweep_loop fn this es w) \<and> length (colls (sweep_loop fn this es w)) = length (colls w)"
  by (induction es arbitrary: w) (simp_all add: world_ok_delete)

lemma sweep_ok:
  "world_ok w \<Longrightarrow> this < length (colls w) \<Longrightarrow>
   world_ok (snd (sweep fn w this)) \<and> length (colls (snd (sweep fn w this))) = length (colls w)"
  by (simp add: sweep_def Let_def sweep_loop_ok)

lemma foldl_super_set:
  "this < length (colls w) \<Longrightarrow>
   foldl (\<lambda>w' (k, v). super_set w' this k v) w es =
   put_coll this ((colls w ! this)\<lparr>entries := foldl (\<lambda>m (k, v). Map_set k v m) (entries (colls w ! this)) es\<rparr>) w"
proof (induction es arbitrary: w)
  case Nil
  then show ?case by (simp add: put_coll_def)
next
  case (Cons e es)
  obtain k v where e: "e = (k, v)" by (cases e)
  have l: "this < length (colls (super_set w this k v))" using Cons.prems by (simp add: super_set_def)
  show ?case using Cons.prems
    by (simp add: e Cons.IH[OF l]) (simp add: super_set_def put_coll_def)
qed

lemma distinct_foldl_Map_set:
  "distinct (map fst m) \<Longrightarrow> distinct (map fst (foldl (\<lambda>m (k, v). Map_set k v m) m es))"
  by (induction es arbitrary: m) (auto simp: distinct_Map_set)

lemma sort_coll_eq:
  "this < length (colls w) \<Longrightarrow>
   sort_coll w this cmp =
   put_coll this ((colls w ! this)\<lparr>array_cache := None, keyArray_cache := None,
      entries := foldl (\<lambda>m (k, v). Map_set k v m) []
         (Array_sort (\<lambda>a b. cmp (snd a) (snd b) (fst a) (fst b)) (entries (colls w ! this)))\<rparr>) w"
  by (simp add: sort_coll_def Let_def foldl_super_set super_clear_def assign_array_def assign_keyArray_def)
     (simp add: put_coll_def)

lemma sort_coll_ok:
  "world_ok w \<Longrightarrow> this < length (colls w) \<Longrightarrow>
   world_ok (sort_coll w this cmp) \<and> length (colls (sort_coll w this cmp)) = length (colls w)"
  by (simp add: sort_coll_eq world_ok_put_coll coll_ok_reset distinct_foldl_Map_set)

subsection \<open>Sampling without replacement\<close>

lemma floor_index:
  assumes "0 \<le> r" "r < 1" "0 < L"
  shows "0 \<le> \<lfloor>r * real L\<rfloor>" and "\<lfloor>r * real L\<rfloor> < int L"
proof -
  show "0 \<le> \<lfloor>r * real L\<rfloor>" using assms by simp
  have "r * real L < 1 * real L" using assms by (intro mult_strict_right_mono) simp_all
  then have "r * real L < real_of_int (int L)" by simp
  then show "\<lfloor>r * real L\<rfloor> < int L" by (simp only: floor_less_iff)
qed

lemma splice1_in_range:
  "0 \<le> i \<Longrightarrow> i < int (length xs) \<Longrightarrow>
   splice1 i xs = ([xs ! nat i], take (nat i) xs @ drop (Suc (nat i)) xs)"
  by (auto simp: splice1_def Let_def min_def take_Suc_conv_app_nth nat_add_distrib hd_drop_conv_nth
      intro!: nth_equalityI)

lemma mset_remove_nth: "i < length xs \<Longrightarrow> add_mset (xs ! i) (mset (take i xs @ drop (Suc i) xs)) = mset xs"
proof -
  assume "i < length xs"
  then have "xs = take i xs @ xs ! i # drop (Suc i) xs" by (rule id_take_nth_drop)
  then have "mset xs = mset (take i xs @ xs ! i # drop (Suc i) xs)" by simp
  then show ?thesis by simp
qed

lemma sample_v_frame:
  "sample_v n arr w = (xs, w') \<Longrightarrow>
   colls w' = colls w \<and> karrs w' = karrs w \<and> (\<exists>ys. varrs w' = (varrs w)[arr := ys])"
proof (induction n arbitrary: w xs w')
  case 0
  then show ?case by (auto intro: exI[of _ "varrs w ! arr"])
next
  case (Suc n)
  obtain r w1 where r: "Math_random w = (r, w1)" by (cases "Math_random w")
  obtain removed remaining
    where s: "splice1 \<lfloor>r * real (length (varrs w1 ! arr))\<rfloor> (varrs w1 ! arr) = (removed, remaining)"
    by (cases "splice1 \<lfloor>r * real (length (varrs w1 ! arr))\<rfloor> (varrs w1 ! arr)")
  let ?w2 = "w1\<lparr>varrs := (varrs w1)[arr := remaining]\<rparr>"
  obtain ys w3 where rec: "sample_v n arr ?w2 = (ys, w3)" by (cases "sample_v n arr ?w2")
  from Suc.prems r s rec have w': "w' = w3" by (simp add: Let_def)
  have w1: "colls w1 = colls w" "karrs w1 = karrs w" "varrs w1 = varrs w"
    using r by (auto simp: Math_random_def)
  from Suc.IH[OF rec] w1 show ?case unfolding w' by auto
qed

lemma sample_v_result:
  "arr < length (varrs w) \<Longrightarrow> (\<And>i. 0 \<le> rng w i \<and> rng w i < 1) \<Longrightarrow> n \<le> length (varrs w ! arr) \<Longrightarrow>
   sample_v n arr w = (xs, w') \<Longrightarrow>
   \<exists>vs. xs = map Some vs \<and> length vs = n \<and> mset vs + mset (varrs w' ! arr) = mset (varrs w ! arr)"
proof (induction n arbitrary: w xs w')
  case 0
  then show ?case by simp
next
  case (Suc n)
  let ?arr = "varrs w ! arr"
  let ?r = "rng w 0"
  let ?w1 = "w\<lparr>rng := \<lambda>i. rng w (Suc i)\<rparr>"
  let ?i = "\<lfloor>?r * real (length ?arr)\<rfloor>"
  have pos: "0 < length ?arr" using Suc.prems(3) by (cases ?arr) simp_all
  have i: "0 \<le> ?i" "?i < int (length ?arr)"
    using floor_index[OF _ _ pos, of ?r] Suc.prems(2) by simp_all
  let ?rest = "take (nat ?i) ?arr @ drop (Suc (nat ?i)) ?arr"
  have s: "splice1 ?i ?arr = ([?arr ! nat ?i], ?rest)" by (rule splice1_in_range[OF i])
  let ?w2 = "?w1\<lparr>varrs := (varrs w)[arr := ?rest]\<rparr>"
  obtain ys w3 where rec: "sample_v n arr ?w2 = (ys, w3)" by (cases "sample_v n arr ?w2")
  from Suc.prems(4) s rec have xs: "xs = Some (?arr ! nat ?i) # ys" and w': "w' = w3"
    by (simp_all add: Let_def Math_random_def index_def)
  have ni: "nat ?i < length ?arr" using i by linarith
  have len: "length ?rest = length ?arr - 1" using ni by simp
  have "\<exists>vs. ys = map Some vs \<and> length vs = n \<and> mset vs + mset (varrs w3 ! arr) = mset (varrs ?w2 ! arr)"
  proof (rule Suc.IH[OF _ _ _ rec])
    show "arr < length (varrs ?w2)" using Suc.prems(1) by simp
    show "\<And>i. 0 \<le> rng ?w2 i \<and> rng ?w2 i < 1" using Suc.prems(2) by simp
    show "n \<le> length (varrs ?w2 ! arr)" using Suc.prems(1,3) len by simp
  qed
  then obtain vs where vs: "ys = map Some vs" "length vs = n"
    "mset vs + mset (varrs w3 ! arr) = mset ?rest" using Suc.prems(1) by auto
  have "mset (?arr ! nat ?i # vs) + mset (varrs w3 ! arr) = mset ?arr"
    using vs(3) mset_remove_nth[OF ni] by simp
  then show ?case using vs xs w' by (intro exI[of _ "?arr ! nat ?i # vs"]) simp
qed

lemma random_effect:
  assumes "array w this = (a, w1)" "random w this amount = (res, w')"
  shows "colls w' = colls w1 \<and> karrs w' = karrs w1 \<and> take (length (varrs w1)) (varrs w') = varrs w1"
proof (cases amount)
  case None
  with assms show ?thesis by (auto simp: random_def Math_random_def Let_def)
next
  case (Some n)
  show ?thesis
  proof (cases "length (varrs w1 ! a) = 0 \<or> n = 0")
    case True
    with assms Some show ?thesis by (auto simp: random_def)
  next
    case False
    let ?w2 = "w1\<lparr>varrs := varrs w1 @ [varrs w1 ! a]\<rparr>"
    let ?m = "nat (min n (int (length (varrs ?w2 ! length (varrs w1)))))"
    obtain xs w3 where s: "sample_v ?m (length (varrs w1)) ?w2 = (xs, w3)"
      by (cases "sample_v ?m (length (varrs w1)) ?w2")
    from assms Some False s have w': "w' = w3"
      by (auto simp: random_def new_varr_def Let_def)
    from sample_v_frame[OF s] show ?thesis unfolding w' by auto
  qed
qed

lemma random_ok:
  assumes "world_ok w" "this < length (colls w)"
  shows "world_ok (snd (random w this amount)) \<and> length (colls (snd (random w this amount))) = length (colls w)"
proof -
  obtain a w1 where a: "array w this = (a, w1)" by (cases "array w this")
  obtain res w' where r: "random w this amount = (res, w')" by (cases "random w this amount")
  note e = random_effect[OF a r]
  note s = array_spec[OF assms a]
  have "world_ok w'" by (rule world_ok_ext[OF s(1)]) (simp_all add: e)
  moreover have "length (colls w') = length (colls w)" using e s(2) by simp
  ultimately show ?thesis using r by simp
qed

lemma random_n_spec:
  assumes ok: "world_ok w" and valid: "this < length (colls w)"
    and rng: "\<And>i. 0 \<le> rng w i \<and> rng w i < 1"
    and n: "0 \<le> n" "n \<le> int (size_coll w this)"
    and r: "random w this (Some n) = (res, w')"
  shows "\<exists>vs. res = Multiple (map Some vs) \<and> length vs = nat n \<and>
           mset vs \<subseteq># mset (map snd (entries (colls w ! this)))"
proof -
  obtain a w1 where a: "array w this = (a, w1)" by (cases "array w this")
  note s = array_spec[OF ok valid a]
  let ?vals = "map snd (entries (colls w ! this))"
  show ?thesis
  proof (cases "length (varrs w1 ! a) = 0 \<or> n = 0")
    case True
    with r a have "res = Multiple []" by (auto simp: random_def)
    moreover have "nat n = 0" using True n s(4) by (auto simp: size_coll_def)
    ultimately show ?thesis by (intro exI[of _ "[]"]) simp
  next
    case False
    let ?w2 = "w1\<lparr>varrs := varrs w1 @ [varrs w1 ! a]\<rparr>"
    let ?arr = "length (varrs w1)"
    have copy: "varrs ?w2 ! ?arr = ?vals" using s(4) by simp
    have m: "nat (min n (int (length (varrs ?w2 ! ?arr)))) = nat n"
      using n unfolding copy by (simp add: size_coll_def min_def)
    obtain xs w3 where sm: "sample_v (nat n) ?arr ?w2 = (xs, w3)"
      by (cases "sample_v (nat n) ?arr ?w2")
    from r a False sm m have res: "res = Multiple xs"
      by (auto simp: random_def new_varr_def Let_def)
    have "\<exists>vs. xs = map Some vs \<and> length vs = nat n \<and> mset vs + mset (varrs w3 ! ?arr) = mset (varrs ?w2 ! ?arr)"
    proof (rule sample_v_result[OF _ _ _ sm])
      show "?arr < length (varrs ?w2)" by simp
      show "\<And>i. 0 \<le> rng ?w2 i \<and> rng ?w2 i < 1" using rng s(7) by simp
      show "nat n \<le> length (varrs ?w2 ! ?arr)" using n unfolding copy by (simp add: size_coll_def)
    qed
    then obtain vs where vs: "xs = map Some vs" "length vs = nat n"
      "mset vs + mset (varrs w3 ! ?arr) = mset ?vals" unfolding copy by auto
    have "mset vs \<subseteq># mset ?vals" using vs(3) by (metis mset_subset_eq_add_left)
    with vs res show ?thesis by auto
  qed
qed

text \<open>The same for the keys.\<close>

lemma sample_k_frame:
  "sample_k n arr w = (xs, w') \<Longrightarrow>
   colls w' = colls w \<and> varrs w' = varrs w \<and> (\<exists>ys. karrs w' = (karrs w)[arr := ys])"
proof (induction n arbitrary: w xs w')
  case 0
  then show ?case by (auto intro: exI[of _ "karrs w ! arr"])
next
  case (Suc n)
  obtain r w1 where r: "Math_random w = (r, w1)" by (cases "Math_random w")
  obtain removed remaining
    where s: "splice1 \<lfloor>r * real (length (karrs w1 ! arr))\<rfloor> (karrs w1 ! arr) = (removed, remaining)"
    by (cases "splice1 \<lfloor>r * real (length (karrs w1 ! arr))\<rfloor> (karrs w1 ! arr)")
  let ?w2 = "w1\<lparr>karrs := (karrs w1)[arr := remaining]\<rparr>"
  obtain ys w3 where rec: "sample_k n arr ?w2 = (ys, w3)" by (cases "sample_k n arr ?w2")
  from Suc.prems r s rec have w': "w' = w3" by (simp add: Let_def)
  have w1: "colls w1 = colls w" "varrs w1 = varrs w" "karrs w1 = karrs w"
    using r by (auto simp: Math_random_def)
  from Suc.IH[OF rec] w1 show ?case unfolding w' by auto
qed

lemma sample_k_result:
  "arr < length (karrs w) \<Longrightarrow> (\<And>i. 0 \<le> rng w i \<and> rng w i < 1) \<Longrightarrow> n \<le> length (karrs w ! arr) \<Longrightarrow>
   sample_k n arr w = (xs, w') \<Longrightarrow>
   \<exists>vs. xs = map Some vs \<and> length vs = n \<and> mset vs + mset (karrs w' ! arr) = mset (karrs w ! arr)"
proof (induction n arbitrary: w xs w')
  case 0
  then show ?case by simp
next
  case (Suc n)
  let ?arr = "karrs w ! arr"
  let ?r = "rng w 0"
  let ?w1 = "w\<lparr>rng := \<lambda>i. rng w (Suc i)\<rparr>"
  let ?i = "\<lfloor>?r * real (length ?arr)\<rfloor>"
  have pos: "0 < length ?arr" using Suc.prems(3) by (cases ?arr) simp_all
  have i: "0 \<le> ?i" "?i < int (length ?arr)"
    using floor_index[OF _ _ pos, of ?r] Suc.prems(2) by simp_all
  let ?rest = "take (nat ?i) ?arr @ drop (Suc (nat ?i)) ?arr"
  have s: "splice1 ?i ?arr = ([?arr ! nat ?i], ?rest)" by (rule splice1_in_range[OF i])
  let ?w2 = "?w1\<lparr>karrs := (karrs w)[arr := ?rest]\<rparr>"
  obtain ys w3 where rec: "sample_k n arr ?w2 = (ys, w3)" by (cases "sample_k n arr ?w2")
  from Suc.prems(4) s rec have xs: "xs = Some (?arr ! nat ?i) # ys" and w': "w' = w3"
    by (simp_all add: Let_def Math_random_def index_def)
  have ni: "nat ?i < length ?arr" using i by linarith
  have len: "length ?rest = length ?arr - 1" using ni by simp
  have "\<exists>vs. ys = map Some vs \<and> length vs = n \<and> mset vs + mset (karrs w3 ! arr) = mset (karrs ?w2 ! arr)"
  proof (rule Suc.IH[OF _ _ _ rec])
    show "arr < length (karrs ?w2)" using Suc.prems(1) by simp
    show "\<And>i. 0 \<le> rng ?w2 i \<and> rng ?w2 i < 1" using Suc.prems(2) by simp
    show "n \<le> length (karrs ?w2 ! arr)" using Suc.prems(1,3) len by simp
  qed
  then obtain vs where vs: "ys = map Some vs" "length vs = n"
    "mset vs + mset (karrs w3 ! arr) = mset ?rest" using Suc.prems(1) by auto
  have "mset (?arr ! nat ?i # vs) + mset (karrs w3 ! arr) = mset ?arr"
    using vs(3) mset_remove_nth[OF ni] by simp
  then show ?case using vs xs w' by (intro exI[of _ "?arr ! nat ?i # vs"]) simp
qed

lemma randomKey_effect:
  assumes "keyArray w this = (a, w1)" "randomKey w this amount = (res, w')"
  shows "colls w' = colls w1 \<and> varrs w' = varrs w1 \<and> take (length (karrs w1)) (karrs w') = karrs w1"
proof (cases amount)
  case None
  with assms show ?thesis by (auto simp: randomKey_def Math_random_def Let_def)
next
  case (Some n)
  show ?thesis
  proof (cases "length (karrs w1 ! a) = 0 \<or> n = 0")
    case True
    with assms Some show ?thesis by (auto simp: randomKey_def)
  next
    case False
    let ?w2 = "w1\<lparr>karrs := karrs w1 @ [karrs w1 ! a]\<rparr>"
    let ?m = "nat (min n (int (length (karrs ?w2 ! length (karrs w1)))))"
    obtain xs w3 where s: "sample_k ?m (length (karrs w1)) ?w2 = (xs, w3)"
      by (cases "sample_k ?m (length (karrs w1)) ?w2")
    from assms Some False s have w': "w' = w3"
      by (auto simp: randomKey_def new_karr_def Let_def)
    from sample_k_frame[OF s] show ?thesis unfolding w' by auto
  qed
qed

lemma randomKey_ok:
  assumes "world_ok w" "this < length (colls w)"
  shows "world_ok (snd (randomKey w this amount)) \<and> length (colls (snd (randomKey w this amount))) = length (colls w)"
proof -
  obtain a w1 where a: "keyArray w this = (a, w1)" by (cases "keyArray w this")
  obtain res w' where r: "randomKey w this amount = (res, w')" by (cases "randomKey w this amount")
  note e = randomKey_effect[OF a r]
  note s = keyArray_spec[OF assms a]
  have "world_ok w'" by (rule world_ok_ext[OF s(1)]) (simp_all add: e)
  moreover have "length (colls w') = length (colls w)" using e s(2) by simp
  ultimately show ?thesis using r by simp
qed

lemma randomKey_n_spec:
  assumes ok: "world_ok w" and valid: "this < length (colls w)"
    and rng: "\<And>i. 0 \<le> rng w i \<and> rng w i < 1"
    and n: "0 \<le> n" "n \<le> int (size_coll w this)"
    and r: "randomKey w this (Some n) = (res, w')"
  shows "\<exists>vs. res = Multiple (map Some vs) \<and> length vs = nat n \<and>
           mset vs \<subseteq># mset (map fst (entries (colls w ! this)))"
proof -
  obtain a w1 where a: "keyArray w this = (a, w1)" by (cases "keyArray w this")
  note s = keyArray_spec[OF ok valid a]
  let ?vals = "map fst (entries (colls w ! this))"
  show ?thesis
  proof (cases "length (karrs w1 ! a) = 0 \<or> n = 0")
    case True
    with r a have "res = Multiple []" by (auto simp: randomKey_def)
    moreover have "nat n = 0" using True n s(4) by (auto simp: size_coll_def)
    ultimately show ?thesis by (intro exI[of _ "[]"]) simp
  next
    case False
    let ?w2 = "w1\<lparr>karrs := karrs w1 @ [karrs w1 ! a]\<rparr>"
    let ?arr = "length (karrs w1)"
    have copy: "karrs ?w2 ! ?arr = ?vals" using s(4) by simp
    have m: "nat (min n (int (length (karrs ?w2 ! ?arr)))) = nat n"
      using n unfolding copy by (simp add: size_coll_def min_def)
    obtain xs w3 where sm: "sample_k (nat n) ?arr ?w2 = (xs, w3)"
      by (cases "sample_k (nat n) ?arr ?w2")
    from r a False sm m have res: "res = Multiple xs"
      by (auto simp: randomKey_def new_karr_def Let_def)
    have "\<exists>vs. xs = map Some vs \<and> length vs = nat n \<and> mset vs + mset (karrs w3 ! ?arr) = mset (karrs ?w2 ! ?arr)"
    proof (rule sample_k_result[OF _ _ _ sm])
      show "?arr < length (karrs ?w2)" by simp
      show "\<And>i. 0 \<le> rng ?w2 i \<and> rng ?w2 i < 1" using rng s(7) by simp
      show "nat n \<le> length (karrs ?w2 ! ?arr)" using n unfolding copy by (simp add: size_coll_def)
    qed
    then obtain vs where vs: "xs = map Some vs" "length vs = nat n"
      "mset vs + mset (karrs w3 ! ?arr) = mset ?vals" unfolding copy by auto
    have "mset vs \<subseteq># mset ?vals" using vs(3) by (metis mset_subset_eq_add_left)
    with vs res show ?thesis by auto
  qed
qed

subsection \<open>The constructor, and every operation keeps the store well formed\<close>

lemma world_ok_empty_world: "world_ok (empty_world g)"
  by (simp add: world_ok_def empty_world_def)

lemma foldl_set_coll:
  "this < length (colls w) \<Longrightarrow> es \<noteq> [] \<Longrightarrow>
   foldl (\<lambda>w' (k, v). set_coll w' this k v) w es =
   put_coll this ((colls w ! this)\<lparr>array_cache := None, keyArray_cache := None,
      entries := foldl (\<lambda>m (k, v). Map_set k v m) (entries (colls w ! this)) es\<rparr>) w"
proof (induction es arbitrary: w)
  case Nil
  then show ?case by simp
next
  case (Cons e es)
  obtain k v where e: "e = (k, v)" by (cases e)
  have l: "this < length (colls (set_coll w this k v))" using Cons.prems by simp
  show ?case
  proof (cases "es = []")
    case True
    then show ?thesis using Cons.prems by (simp add: e set_coll_eq)
  next
    case False
    show ?thesis using Cons.prems
      by (simp add: e Cons.IH[OF l False]) (simp add: set_coll_eq put_coll_def)
  qed
qed

lemma new_Collection_eq:
  "new_Collection es w =
     (length (colls w),
      w\<lparr>colls := colls w @ [\<lparr>entries = foldl (\<lambda>m (k, v). Map_set k v m) [] es,
                              array_cache = None, keyArray_cache = None\<rparr>]\<rparr>)"
proof (cases "es = []")
  case True
  then show ?thesis
    by (simp add: new_Collection_def Let_def assign_array_def assign_keyArray_def put_coll_def)
next
  case False
  let ?init = "w\<lparr>colls := colls w @ [\<lparr>entries = [], array_cache = None, keyArray_cache = None\<rparr>]\<rparr>"
  have l: "length (colls w) < length (colls ?init)" by simp
  show ?thesis
    unfolding new_Collection_def Let_def foldl_set_coll[OF l False]
    by (simp add: assign_array_def assign_keyArray_def put_coll_def)
qed

lemma coll_ok_colls_update [simp]: "coll_ok (w\<lparr>colls := cs\<rparr>) = coll_ok w"
  by (simp add: fun_eq_iff coll_ok_def)

lemma new_Collection_ok: "world_ok w \<Longrightarrow> world_ok (snd (new_Collection es w))"
  by (simp add: new_Collection_eq world_ok_def) (simp add: coll_ok_def distinct_foldl_Map_set)

lemma array_ok:
  "world_ok w \<Longrightarrow> this < length (colls w) \<Longrightarrow>
   world_ok (snd (array w this)) \<and> length (colls (snd (array w this))) = length (colls w)"
  using array_spec(1,2)[of w this "fst (array w this)" "snd (array w this)"] by simp

lemma keyArray_ok:
  "world_ok w \<Longrightarrow> this < length (colls w) \<Longrightarrow>
   world_ok (snd (keyArray w this)) \<and> length (colls (snd (keyArray w this))) = length (colls w)"
  using keyArray_spec(1,2)[of w this "fst (keyArray w this)" "snd (keyArray w this)"] by simp

lemma apply_operation_ok:
  "world_ok w \<Longrightarrow> this < length (colls w) \<Longrightarrow>
   world_ok (apply_operation this w op) \<and> length (colls (apply_operation this w op)) = length (colls w)"
  by (cases op)
     (simp_all add: world_ok_set_coll world_ok_delete world_ok_clear sweep_ok sort_coll_ok
        array_ok keyArray_ok random_ok randomKey_ok)

lemma run_ok:
  "world_ok w \<Longrightarrow> this < length (colls w) \<Longrightarrow>
   world_ok (run this ops w) \<and> length (colls (run this ops w)) = length (colls w)"
  unfolding run_def
proof (induction ops arbitrary: w)
  case Nil
  then show ?case by simp
next
  case (Cons op ops)
  from apply_operation_ok[OF Cons.prems, of op] Cons.IH[of "apply_operation this w op"] Cons.prems
  show ?case by simp
qed

lemma world_ok_alloc:
  "world_ok w \<Longrightarrow> distinct (map fst es) \<Longrightarrow>
   world_ok (w\<lparr>colls := colls w @ [\<lparr>entries = es, array_cache = None, keyArray_cache = None\<rparr>]\<rparr>)"
  by (simp add: world_ok_def) (simp add: coll_ok_def)

lemma prefix_trans:
  assumes "take (length xs) ys = xs" "take (length ys) zs = ys"
  shows "take (length xs) zs = xs"
proof -
  have "length (take (length xs) ys) = length xs" using assms(1) by simp
  then have le: "length xs \<le> length ys" by simp
  have "take (length xs) zs = take (length xs) (take (length ys) zs)" using le by (simp add: min_def)
  then show ?thesis using assms by simp
qed

lemma clone_eq:
  assumes "world_ok w" "this < length (colls w)"
  shows "clone w this =
    (length (colls w),
     w\<lparr>colls := colls w @ [\<lparr>entries = entries (colls w ! this),
                             array_cache = None, keyArray_cache = None\<rparr>]\<rparr>)"
proof -
  have "distinct (map fst (entries (colls w ! this)))"
    using world_ok_nth[OF assms] by (simp add: coll_ok_def)
  then have "foldl (\<lambda>m (k, v). Map_set k v m) [] (entries (colls w ! this)) = entries (colls w ! this)"
    using foldl_Map_set_append[of "entries (colls w ! this)" "[]"] by simp
  then show ?thesis by (simp add: clone_def new_Collection_eq)
qed

text \<open>The methods that build new collections keep the store well formed too.\<close>

lemma clone_ok: "world_ok w \<Longrightarrow> world_ok (snd (clone w this))"
  by (simp add: clone_def new_Collection_ok)

lemma foldl_set_coll_ok:
  "world_ok w \<Longrightarrow> c < length (colls w) \<Longrightarrow>
   world_ok (foldl (\<lambda>w' (k, v). set_coll w' c k v) w es) \<and>
   length (colls (foldl (\<lambda>w' (k, v). set_coll w' c k v) w es)) = length (colls w)"
  by (induction es arbitrary: w) (simp_all add: world_ok_set_coll split_beta)

lemma concat_coll_ok: "world_ok w \<Longrightarrow> world_ok (snd (concat_coll w this cs))"
proof -
  assume ok: "world_ok w"
  let ?c = "length (colls w)"
  let ?w1 = "snd (new_Collection (entries (colls w ! this)) w)"
  have ok1: "world_ok ?w1" by (rule new_Collection_ok[OF ok])
  have v1: "?c < length (colls ?w1)" by (simp add: new_Collection_eq)
  have "world_ok (foldl (\<lambda>w' coll. foldl (\<lambda>w'' (key, val). set_coll w'' ?c key val) w'
                              (entries (colls w' ! coll))) w1 cs) \<and>
        length (colls (foldl (\<lambda>w' coll. foldl (\<lambda>w'' (key, val). set_coll w'' ?c key val) w'
                              (entries (colls w' ! coll))) w1 cs)) = length (colls w1)"
    if "world_ok w1" "?c < length (colls w1)" for w1
    using that
  proof (induction cs arbitrary: w1)
    case Nil
    then show ?case by simp
  next
    case (Cons x xs)
    from foldl_set_coll_ok[OF Cons.prems, of "entries (colls w1 ! x)"]
      Cons.IH[of "foldl (\<lambda>w'' (key, val). set_coll w'' ?c key val) w1 (entries (colls w1 ! x))"]
      Cons.prems
    show ?case by simp
  qed
  from this[OF ok1 v1] show ?thesis
    by (simp add: concat_coll_def clone_def new_Collection_eq)
qed

lemma filter_loop_ok:
  "world_ok w \<Longrightarrow> results < length (colls w) \<Longrightarrow>
   world_ok (filter_loop fn this results es w) \<and>
   length (colls (filter_loop fn this results es w)) = length (colls w)"
  by (induction es arbitrary: w) (simp_all add: world_ok_set_coll)

lemma filter_coll_ok: "world_ok w \<Longrightarrow> world_ok (snd (filter_coll fn w this))"
proof -
  assume ok: "world_ok w"
  have ok1: "world_ok (snd (new_Collection [] w))" by (rule new_Collection_ok[OF ok])
  have v1: "length (colls w) < length (colls (snd (new_Collection [] w)))"
    by (simp add: new_Collection_eq)
  from filter_loop_ok[OF ok1 v1] show ?thesis
    by (simp add: filter_coll_def new_Collection_eq)
qed

lemma difference_ok: "world_ok w \<Longrightarrow> world_ok (snd (difference w this other))"
  by (simp add: difference_def split_beta concat_coll_ok filter_coll_ok)

section \<open>The claims\<close>

subsection \<open>Coherence of the snapshots\<close>

text \<open>
  C1 (cache coherence). Start from any well-formed store and any collection in it,
  and run any sequence of operations on the collection. The array then returned by
  \<open>array\<close> has as many elements as the collection has entries and holds the values
  of the current entries in insertion order; the array returned by \<open>keyArray\<close>
  likewise holds the keys. The call itself leaves the entries as they are.
\<close>

theorem cache_coherence:
  assumes "world_ok w" and "this < length (colls w)"
    and "array (run this ops w) this = (a, w1)"
    and "keyArray (run this ops w) this = (ka, w2)"
  shows "length (varrs w1 ! a) = size_coll w1 this \<and>
         varrs w1 ! a = map snd (entries (colls w1 ! this)) \<and>
         entries (colls w1 ! this) = entries (colls (run this ops w) ! this) \<and>
         length (karrs w2 ! ka) = size_coll w2 this \<and>
         karrs w2 ! ka = map fst (entries (colls w2 ! this)) \<and>
         entries (colls w2 ! this) = entries (colls (run this ops w) ! this)"
proof -
  let ?w = "run this ops w"
  from run_ok[OF assms(1,2), of ops] assms(2)
  have ok: "world_ok ?w" and valid: "this < length (colls ?w)"
    by simp_all
  note v = array_spec[OF ok valid assms(3)]
  note k = keyArray_spec[OF ok valid assms(4)]
  have ev: "entries (colls w1 ! this) = entries (colls ?w ! this)" using v(2) valid by simp
  have ek: "entries (colls w2 ! this) = entries (colls ?w ! this)" using k(2) valid by simp
  show ?thesis using v(4) k(4) ev ek by (simp add: size_coll_def)
qed

theorem cache_coherence_witness:
  "world_ok (snd (new_Collection [(1::nat, 10::nat), (2, 20)] (empty_world zeros))) \<and>
   (let w = run 0 [Array, KeyArray, Set 3 30, Array, Clear, Set 2 40, Sort default_compare]
              (snd (new_Collection [(1::nat, 10::nat), (2, 20)] (empty_world zeros)))
    in varrs (snd (array w 0)) ! fst (array w 0) = [40] \<and>
       karrs (snd (keyArray w 0)) ! fst (keyArray w 0) = [2] \<and>
       size_coll (snd (array w 0)) 0 = 1)"
proof -
  let ?init = "snd (new_Collection [(1::nat, 10::nat), (2, 20)] (empty_world zeros))"
  let ?w = "run 0 [Array, KeyArray, Set 3 30, Array, Clear, Set 2 40, Sort default_compare] ?init"
  have ok: "world_ok ?init" by (rule new_Collection_ok[OF world_ok_empty_world])
  have valid: "0 < length (colls ?init)" by (simp add: new_Collection_eq empty_world_def)
  have e: "entries (colls ?w ! 0) = [(2, 40)]" by code_simp
  have "array ?w 0 = (fst (array ?w 0), snd (array ?w 0))"
    and "keyArray ?w 0 = (fst (keyArray ?w 0), snd (keyArray ?w 0))" by simp_all
  from cache_coherence[OF ok valid this]
  show ?thesis using ok e by (simp add: Let_def size_coll_def)
qed

subsection \<open>clear\<close>

lemma array_of_empty:
  assumes "entries (colls w ! this) = []"
  shows "varrs (snd (array w this)) ! fst (array w this) = []"
  using array_cases[of w this]
proof
  assume "array w this = (length (varrs w),
    assign_array (w\<lparr>varrs := varrs w @ [map snd (entries (colls w ! this))]\<rparr>) this (Some (length (varrs w))))"
  then show ?thesis using assms by (simp add: assign_array_def put_coll_def)
next
  assume "\<exists>a. array_cache (colls w ! this) = Some a \<and>
    length (varrs w ! a) = length (entries (colls w ! this)) \<and> array w this = (a, w)"
  then show ?thesis using assms by auto
qed

lemma keyArray_of_empty:
  assumes "entries (colls w ! this) = []"
  shows "karrs (snd (keyArray w this)) ! fst (keyArray w this) = []"
  using keyArray_cases[of w this]
proof
  assume "keyArray w this = (length (karrs w),
    assign_keyArray (w\<lparr>karrs := karrs w @ [map fst (entries (colls w ! this))]\<rparr>) this (Some (length (karrs w))))"
  then show ?thesis using assms by (simp add: assign_keyArray_def put_coll_def)
next
  assume "\<exists>a. keyArray_cache (colls w ! this) = Some a \<and>
    length (karrs w ! a) = length (entries (colls w ! this)) \<and> keyArray w this = (a, w)"
  then show ?thesis using assms by auto
qed

lemma array_field:
  assumes "this < length (colls w)"
  shows "array_cache (colls (snd (array w this)) ! this) = Some (fst (array w this))"
  using array_cases[of w this]
proof
  assume "array w this = (length (varrs w),
    assign_array (w\<lparr>varrs := varrs w @ [map snd (entries (colls w ! this))]\<rparr>) this (Some (length (varrs w))))"
  then show ?thesis using assms by (simp add: assign_array_def put_coll_def)
next
  assume "\<exists>a. array_cache (colls w ! this) = Some a \<and>
    length (varrs w ! a) = length (entries (colls w ! this)) \<and> array w this = (a, w)"
  then show ?thesis by auto
qed

lemma keyArray_field:
  assumes "this < length (colls w)"
  shows "keyArray_cache (colls (snd (keyArray w this)) ! this) = Some (fst (keyArray w this))"
  using keyArray_cases[of w this]
proof
  assume "keyArray w this = (length (karrs w),
    assign_keyArray (w\<lparr>karrs := karrs w @ [map fst (entries (colls w ! this))]\<rparr>) this (Some (length (karrs w))))"
  then show ?thesis using assms by (simp add: assign_keyArray_def put_coll_def)
next
  assume "\<exists>a. keyArray_cache (colls w ! this) = Some a \<and>
    length (karrs w ! a) = length (entries (colls w ! this)) \<and> keyArray w this = (a, w)"
  then show ?thesis by auto
qed

text \<open>
  C2, as the code has it. \<open>clear\<close> removes all entries, so that the size is 0, and
  leaves both snapshot fields as they were: it does not reset them. The next read
  replaces a snapshot left stale: \<open>array\<close> and \<open>keyArray\<close> called after \<open>clear\<close>
  return the empty sequence, and the field then holds the array returned.
\<close>

theorem clear_keeps_fields:
  assumes "this < length (colls w)"
  shows "size_coll (clear w this) this = 0 \<and>
         array_cache (colls (clear w this) ! this) = array_cache (colls w ! this) \<and>
         keyArray_cache (colls (clear w this) ! this) = keyArray_cache (colls w ! this) \<and>
         varrs (snd (array (clear w this) this)) ! fst (array (clear w this) this) = [] \<and>
         karrs (snd (keyArray (clear w this) this)) ! fst (keyArray (clear w this) this) = [] \<and>
         array_cache (colls (snd (array (clear w this) this)) ! this)
           = Some (fst (array (clear w this) this)) \<and>
         keyArray_cache (colls (snd (keyArray (clear w this) this)) ! this)
           = Some (fst (keyArray (clear w this) this))"
proof -
  have valid: "this < length (colls (clear w this))" using assms by simp
  have e: "entries (colls (clear w this) ! this) = []" using assms by (simp add: clear_eq put_coll_def)
  have "array_cache (colls (clear w this) ! this) = array_cache (colls w ! this)"
    and "keyArray_cache (colls (clear w this) ! this) = keyArray_cache (colls w ! this)"
    using assms by (simp_all add: clear_eq put_coll_def)
  then show ?thesis
    using e array_of_empty[OF e] keyArray_of_empty[OF e] array_field[OF valid] keyArray_field[OF valid]
    by (simp add: size_coll_def)
qed

theorem clear_keeps_fields_witness:
  "(0::nat) < length (colls (snd (array (snd (new_Collection [(1::nat, ''a'')] (empty_world zeros))) 0))) \<and>
   size_coll (clear (snd (array (snd (new_Collection [(1::nat, ''a'')] (empty_world zeros))) 0)) 0) 0 = 0 \<and>
   array_cache (colls (clear (snd (array (snd (new_Collection [(1::nat, ''a'')] (empty_world zeros))) 0)) 0) ! 0) = Some 0 \<and>
   varrs (clear (snd (array (snd (new_Collection [(1::nat, ''a'')] (empty_world zeros))) 0)) 0) ! 0 = [''a''] \<and>
   varrs (snd (array (clear (snd (array (snd (new_Collection [(1::nat, ''a'')] (empty_world zeros))) 0)) 0) 0))
     ! fst (array (clear (snd (array (snd (new_Collection [(1::nat, ''a'')] (empty_world zeros))) 0)) 0) 0) = []"
proof -
  let ?w = "snd (array (snd (new_Collection [(1::nat, ''a'')] (empty_world zeros))) 0)"
  have valid: "0 < length (colls ?w)" by code_simp
  have c: "array_cache (colls ?w ! 0) = Some 0" by code_simp
  have v: "varrs (clear ?w 0) ! 0 = [''a'']" by code_simp
  from clear_keeps_fields[OF valid] show ?thesis using valid c v by simp
qed

theorem clear_resets_snapshots_counterexample:
  "\<not> (size_coll (clear (snd (array (snd (new_Collection [(1::nat, ''a'')] (empty_world zeros))) 0)) 0) 0 = 0 \<and>
      array_cache (colls (clear (snd (array (snd (new_Collection [(1::nat, ''a'')] (empty_world zeros))) 0)) 0) ! 0) = None \<and>
      keyArray_cache (colls (clear (snd (array (snd (new_Collection [(1::nat, ''a'')] (empty_world zeros))) 0)) 0) ! 0) = None)"
  by code_simp

subsection \<open>reduce\<close>

lemma reduce_loop_Some:
  "reduce_loop fn w this es (Some a) =
   Some (foldl (\<lambda>accumulator e. fn w accumulator (snd e) (fst e) this) a es)"
  by (induction es arbitrary: a) simp_all

text \<open>
  C3. On an empty collection \<open>reduce\<close> without an initial value raises the
  TypeError "Reduce of empty collection with no initial value" (the only error the
  class raises, the spec's InvalidOperation), and with an initial value it returns
  that value. On a non-empty collection without an initial value the first entry's
  value seeds the accumulator and the left fold goes over the entries from the
  second on, in insertion order.
\<close>

theorem reduce_spec:
  "(entries (colls w ! this) = [] \<longrightarrow>
      reduce fn None w this = Inl (TypeError ''Reduce of empty collection with no initial value'') \<and>
      reduce fn (Some i) w this = Inr i) \<and>
   (\<forall>e rest. entries (colls w ! this) = e # rest \<longrightarrow>
      reduce fn None w this =
        Inr (foldl (\<lambda>accumulator e'. fn w accumulator (snd e') (fst e') this) (snd e) rest))"
  by (simp add: reduce_def reduce_loop_Some)

theorem reduce_spec_witness:
  "entries (colls (snd (new_Collection [(1::nat, 10::int), (2, 3), (3, 2)]
      (snd (new_Collection [] (empty_world zeros))))) ! 0) = [] \<and>
   reduce (\<lambda>w a v k c. a - v) None
     (snd (new_Collection [(1::nat, 10::int), (2, 3), (3, 2)] (snd (new_Collection [] (empty_world zeros))))) 0
     = Inl (TypeError ''Reduce of empty collection with no initial value'') \<and>
   reduce (\<lambda>w a v k c. a - v) (Some 0)
     (snd (new_Collection [(1::nat, 10::int), (2, 3), (3, 2)] (snd (new_Collection [] (empty_world zeros))))) 0
     = Inr 0 \<and>
   entries (colls (snd (new_Collection [(1::nat, 10::int), (2, 3), (3, 2)]
      (snd (new_Collection [] (empty_world zeros))))) ! 1) = [(1, 10), (2, 3), (3, 2)] \<and>
   reduce (\<lambda>w a v k c. a - v) None
     (snd (new_Collection [(1::nat, 10::int), (2, 3), (3, 2)] (snd (new_Collection [] (empty_world zeros))))) 1
     = Inr 5"
proof -
  let ?w = "snd (new_Collection [(1::nat, 10::int), (2, 3), (3, 2)] (snd (new_Collection [] (empty_world zeros))))"
  have e0: "entries (colls ?w ! 0) = []" by code_simp
  have e1: "entries (colls ?w ! 1) = [(1, 10), (2, 3), (3, 2)]" by code_simp
  from reduce_spec[of ?w 0 "\<lambda>w a v k c. a - v" 0] reduce_spec[of ?w 1 "\<lambda>w a v k c. a - v" 0]
  show ?thesis unfolding e0 e1 by simp
qed

subsection \<open>random and randomKey with an amount\<close>

lemma random_frame:
  assumes ok: "world_ok w" and valid: "this < length (colls w)"
    and r: "random w this amount = (res, w')"
  shows "\<exists>a. colls w' = (colls w)[this := (colls w ! this)\<lparr>array_cache := Some a\<rparr>] \<and>
              a < length (varrs w') \<and> varrs w' ! a = map snd (entries (colls w ! this))"
    and "take (length (varrs w)) (varrs w') = varrs w"
    and "karrs w' = karrs w"
    and "array_cache (colls w ! this) = Some a0 \<Longrightarrow> length (varrs w ! a0) = size_coll w this
         \<Longrightarrow> colls w' = colls w"
proof -
  obtain a w1 where a: "array w this = (a, w1)" by (cases "array w this")
  note e = random_effect[OF a r]
  note s = array_spec[OF ok valid a]
  have le: "length (varrs w1) \<le> length (varrs w')"
  proof -
    have "length (take (length (varrs w1)) (varrs w')) = length (varrs w1)" using e by simp
    then show ?thesis by simp
  qed
  have "varrs w' ! a = varrs w1 ! a" using e s(3) by (metis nth_take)
  then show "\<exists>a. colls w' = (colls w)[this := (colls w ! this)\<lparr>array_cache := Some a\<rparr>] \<and>
              a < length (varrs w') \<and> varrs w' ! a = map snd (entries (colls w ! this))"
    using e s(2,3,4) le by (intro exI[of _ a]) simp
  have "take (length (varrs w)) (take (length (varrs w1)) (varrs w')) = varrs w"
    using e s(5) by simp
  moreover have "length (varrs w) \<le> length (varrs w1)"
  proof -
    have "length (take (length (varrs w)) (varrs w1)) = length (varrs w)" using s(5) by simp
    then show ?thesis by simp
  qed
  ultimately show "take (length (varrs w)) (varrs w') = varrs w" by (simp add: min_def)
  show "karrs w' = karrs w" using e s(6) by simp
  assume "array_cache (colls w ! this) = Some a0" "length (varrs w ! a0) = size_coll w this"
  then have "array w this = (a0, w)" by (simp add: array_def)
  with a e show "colls w' = colls w" by simp
qed

lemma randomKey_frame:
  assumes ok: "world_ok w" and valid: "this < length (colls w)"
    and r: "randomKey w this amount = (res, w')"
  shows "\<exists>a. colls w' = (colls w)[this := (colls w ! this)\<lparr>keyArray_cache := Some a\<rparr>] \<and>
              a < length (karrs w') \<and> karrs w' ! a = map fst (entries (colls w ! this))"
    and "take (length (karrs w)) (karrs w') = karrs w"
    and "varrs w' = varrs w"
    and "keyArray_cache (colls w ! this) = Some a0 \<Longrightarrow> length (karrs w ! a0) = size_coll w this
         \<Longrightarrow> colls w' = colls w"
proof -
  obtain a w1 where a: "keyArray w this = (a, w1)" by (cases "keyArray w this")
  note e = randomKey_effect[OF a r]
  note s = keyArray_spec[OF ok valid a]
  have le: "length (karrs w1) \<le> length (karrs w')"
  proof -
    have "length (take (length (karrs w1)) (karrs w')) = length (karrs w1)" using e by simp
    then show ?thesis by simp
  qed
  have "karrs w' ! a = karrs w1 ! a" using e s(3) by (metis nth_take)
  then show "\<exists>a. colls w' = (colls w)[this := (colls w ! this)\<lparr>keyArray_cache := Some a\<rparr>] \<and>
              a < length (karrs w') \<and> karrs w' ! a = map fst (entries (colls w ! this))"
    using e s(2,3,4) le by (intro exI[of _ a]) simp
  have "take (length (karrs w)) (take (length (karrs w1)) (karrs w')) = karrs w"
    using e s(5) by simp
  moreover have "length (karrs w) \<le> length (karrs w1)"
  proof -
    have "length (take (length (karrs w)) (karrs w1)) = length (karrs w)" using s(5) by simp
    then show ?thesis by simp
  qed
  ultimately show "take (length (karrs w)) (karrs w') = karrs w" by (simp add: min_def)
  show "varrs w' = varrs w" using e s(6) by simp
  assume "keyArray_cache (colls w ! this) = Some a0" "length (karrs w ! a0) = size_coll w this"
  then have "keyArray w this = (a0, w)" by (simp add: keyArray_def)
  with a e show "colls w' = colls w" by simp
qed

lemma distinct_sub_mset:
  assumes "mset xs \<subseteq># mset ys" "distinct ys"
  shows "distinct xs"
proof -
  have "count (mset xs) a \<le> 1" for a
  proof -
    have "count (mset xs) a \<le> count (mset ys) a" by (rule mset_subset_eq_count[OF assms(1)])
    also have "\<dots> \<le> 1" using assms(2) by (simp add: distinct_count_atmost_1 split: if_splits)
    finally show ?thesis .
  qed
  then have "count (mset xs) a = (if a \<in> set xs then 1 else 0)" for a
    using count_mset_0_iff[of xs a] le_Suc_eq[of "count (mset xs) a" 0] by (auto split: if_splits)
  then show ?thesis by (simp add: distinct_count_atmost_1)
qed

text \<open>
  C4, as the code has it. Let the collection have at least \<open>n \<ge> 0\<close> entries and let
  every draw of the random source lie in the interval from 0 (included) to 1
  (excluded). \<open>random\<close> with amount \<open>n\<close> returns \<open>n\<close> values taken from \<open>n\<close> different
  positions of the value snapshot: as a multiset they are contained in the values of
  the collection, so all are members of the collection, and they are distinct
  whenever the values of the collection are distinct. The entries, their order and
  the key snapshot field are unchanged, no array that existed before the call is
  written (the elements are spliced out of a copy), and the value snapshot field is
  left as \<open>array\<close> leaves it: it holds the values of the current entries, in the array
  it held before if that was current and in a new array otherwise. \<open>randomKey\<close> does
  the same on the keys, and the keys it returns are always distinct.
\<close>

theorem random_sampling:
  assumes "world_ok w" and "this < length (colls w)"
    and "\<And>i. 0 \<le> rng w i \<and> rng w i < 1"
    and "0 \<le> n" and "n \<le> int (size_coll w this)"
    and "random w this (Some n) = (res, w')"
    and "randomKey w this (Some n) = (kres, w'')"
  shows "(\<exists>vs. res = Multiple (map Some vs) \<and> length vs = nat n \<and>
            mset vs \<subseteq># mset (map snd (entries (colls w ! this))) \<and>
            set vs \<subseteq> set (map snd (entries (colls w ! this))) \<and>
            (distinct (map snd (entries (colls w ! this))) \<longrightarrow> distinct vs)) \<and>
         (\<exists>a. colls w' = (colls w)[this := (colls w ! this)\<lparr>array_cache := Some a\<rparr>] \<and>
            a < length (varrs w') \<and> varrs w' ! a = map snd (entries (colls w ! this))) \<and>
         (\<forall>a0. array_cache (colls w ! this) = Some a0 \<and> length (varrs w ! a0) = size_coll w this
            \<longrightarrow> colls w' = colls w) \<and>
         entries (colls w' ! this) = entries (colls w ! this) \<and>
         keyArray_cache (colls w' ! this) = keyArray_cache (colls w ! this) \<and>
         take (length (varrs w)) (varrs w') = varrs w \<and> karrs w' = karrs w \<and>
         (\<exists>ks. kres = Multiple (map Some ks) \<and> length ks = nat n \<and> distinct ks \<and>
            mset ks \<subseteq># mset (map fst (entries (colls w ! this))) \<and>
            set ks \<subseteq> set (map fst (entries (colls w ! this)))) \<and>
         (\<exists>a. colls w'' = (colls w)[this := (colls w ! this)\<lparr>keyArray_cache := Some a\<rparr>] \<and>
            a < length (karrs w'') \<and> karrs w'' ! a = map fst (entries (colls w ! this))) \<and>
         (\<forall>a0. keyArray_cache (colls w ! this) = Some a0 \<and> length (karrs w ! a0) = size_coll w this
            \<longrightarrow> colls w'' = colls w) \<and>
         entries (colls w'' ! this) = entries (colls w ! this) \<and>
         array_cache (colls w'' ! this) = array_cache (colls w ! this) \<and>
         take (length (karrs w)) (karrs w'') = karrs w \<and> varrs w'' = varrs w"
proof -
  note fv = random_frame[OF assms(1,2,6)]
  note fk = randomKey_frame[OF assms(1,2,7)]
  from random_n_spec[OF assms(1,2,3,4,5,6)] obtain vs
    where vs: "res = Multiple (map Some vs)" "length vs = nat n"
      "mset vs \<subseteq># mset (map snd (entries (colls w ! this)))" by blast
  from randomKey_n_spec[OF assms(1,2,3,4,5,7)] obtain ks
    where ks: "kres = Multiple (map Some ks)" "length ks = nat n"
      "mset ks \<subseteq># mset (map fst (entries (colls w ! this)))" by blast
  have dk: "distinct (map fst (entries (colls w ! this)))"
    using world_ok_nth[OF assms(1,2)] by (simp add: coll_ok_def)
  have 1: "\<exists>vs. res = Multiple (map Some vs) \<and> length vs = nat n \<and>
            mset vs \<subseteq># mset (map snd (entries (colls w ! this))) \<and>
            set vs \<subseteq> set (map snd (entries (colls w ! this))) \<and>
            (distinct (map snd (entries (colls w ! this))) \<longrightarrow> distinct vs)"
    using vs distinct_sub_mset[OF vs(3)] set_mset_mono[OF vs(3)] by (intro exI[of _ vs]) simp
  have 2: "\<exists>ks. kres = Multiple (map Some ks) \<and> length ks = nat n \<and> distinct ks \<and>
            mset ks \<subseteq># mset (map fst (entries (colls w ! this))) \<and>
            set ks \<subseteq> set (map fst (entries (colls w ! this)))"
    using ks distinct_sub_mset[OF ks(3) dk] set_mset_mono[OF ks(3)] by (intro exI[of _ ks]) simp
  have 3: "entries (colls w' ! this) = entries (colls w ! this)"
    "keyArray_cache (colls w' ! this) = keyArray_cache (colls w ! this)"
    using fv(1) assms(2) by auto
  have 4: "entries (colls w'' ! this) = entries (colls w ! this)"
    "array_cache (colls w'' ! this) = array_cache (colls w ! this)"
    using fk(1) assms(2) by auto
  have 5: "\<forall>a0. array_cache (colls w ! this) = Some a0 \<and> length (varrs w ! a0) = size_coll w this
            \<longrightarrow> colls w' = colls w" using fv(4) by blast
  have 6: "\<forall>a0. keyArray_cache (colls w ! this) = Some a0 \<and> length (karrs w ! a0) = size_coll w this
            \<longrightarrow> colls w'' = colls w" using fk(4) by blast
  show ?thesis using 1 2 3 4 5 6 fv(1,2,3) fk(1,2,3) by blast
qed

theorem random_sampling_witness:
  "world_ok (snd (new_Collection [(1::nat, ''a''), (2, ''b''), (3, ''c'')] (empty_world halves))) \<and>
   fst (random (snd (new_Collection [(1::nat, ''a''), (2, ''b''), (3, ''c'')] (empty_world halves))) 0 (Some 2))
     = Multiple [Some ''b'', Some ''c''] \<and>
   fst (randomKey (snd (new_Collection [(1::nat, ''a''), (2, ''b''), (3, ''c'')] (empty_world halves))) 0 (Some 2))
     = Multiple [Some 2, Some 3] \<and>
   entries (colls (snd (random (snd (new_Collection [(1::nat, ''a''), (2, ''b''), (3, ''c'')] (empty_world halves))) 0 (Some 2))) ! 0)
     = [(1, ''a''), (2, ''b''), (3, ''c'')] \<and>
   karrs (snd (random (snd (new_Collection [(1::nat, ''a''), (2, ''b''), (3, ''c'')] (empty_world halves))) 0 (Some 2)))
     = [] \<and>
   varrs (snd (randomKey (snd (new_Collection [(1::nat, ''a''), (2, ''b''), (3, ''c'')] (empty_world halves))) 0 (Some 2)))
     = []"
proof -
  let ?w = "snd (new_Collection [(1::nat, ''a''), (2, ''b''), (3, ''c'')] (empty_world halves))"
  have ok: "world_ok ?w" by (rule new_Collection_ok[OF world_ok_empty_world])
  have valid: "0 < length (colls ?w)" by (simp add: new_Collection_eq empty_world_def)
  have g: "\<And>i. 0 \<le> rng ?w i \<and> rng ?w i < 1"
    by (simp add: new_Collection_eq empty_world_def halves_def)
  have n: "(0::int) \<le> 2" "2 \<le> int (size_coll ?w 0)"
    by (simp_all add: new_Collection_eq empty_world_def size_coll_def)
  have r: "random ?w 0 (Some 2) = (fst (random ?w 0 (Some 2)), snd (random ?w 0 (Some 2)))"
    and k: "randomKey ?w 0 (Some 2) = (fst (randomKey ?w 0 (Some 2)), snd (randomKey ?w 0 (Some 2)))"
    by simp_all
  have e: "entries (colls ?w ! 0) = [(1, ''a''), (2, ''b''), (3, ''c'')]"
    and ka: "karrs ?w = []" and va: "varrs ?w = []"
    by (simp_all add: new_Collection_eq empty_world_def)
  have v1: "fst (random ?w 0 (Some 2)) = Multiple [Some ''b'', Some ''c'']" by code_simp
  have v2: "fst (randomKey ?w 0 (Some 2)) = Multiple [Some 2, Some 3]" by code_simp
  from random_sampling[OF ok valid g n r k] show ?thesis using ok e ka va v1 v2 by simp
qed

theorem random_distinct_untouched_counterexample:
  "fst (random (snd (new_Collection [(1::nat, ''a''), (2, ''a'')] (empty_world zeros))) 0 (Some 2))
     = Multiple [Some ''a'', Some ''a''] \<and>
   \<not> distinct [Some ''a'', Some ''a''] \<and>
   array_cache (colls (snd (new_Collection [(1::nat, ''a''), (2, ''a'')] (empty_world zeros))) ! 0) = None \<and>
   array_cache (colls (snd (random (snd (new_Collection [(1::nat, ''a''), (2, ''a'')] (empty_world zeros))) 0 (Some 2))) ! 0)
     = Some 0"
  by code_simp

subsection \<open>equals\<close>

lemma equals_loop_iff:
  "equals_loop w c es \<longleftrightarrow> (\<forall>e\<in>set es. has w c (fst e) \<and> get w c (fst e) = Some (snd e))"
  by (induction es) auto

lemma entry_iff_get:
  "distinct (map fst (entries (colls w ! c))) \<Longrightarrow>
   has w c k \<and> get w c k = Some v \<longleftrightarrow> (k, v) \<in> set (entries (colls w ! c))"
  by (auto simp: has_def get_def Map_has_def Map_get_def intro: rev_image_eqI)

lemma equals_set:
  assumes "world_ok w" "a < length (colls w)" "b < length (colls w)"
  shows "equals w a (Some b) \<longleftrightarrow>
         size_coll w a = size_coll w b \<and> set (entries (colls w ! a)) \<subseteq> set (entries (colls w ! b))"
proof -
  have da: "distinct (map fst (entries (colls w ! a)))"
    and db: "distinct (map fst (entries (colls w ! b)))"
    using world_ok_nth[OF assms(1,2)] world_ok_nth[OF assms(1,3)] by (simp_all add: coll_ok_def)
  have loop: "equals_loop w b (entries (colls w ! a)) \<longleftrightarrow>
              set (entries (colls w ! a)) \<subseteq> set (entries (colls w ! b))"
    unfolding equals_loop_iff using entry_iff_get[OF db] by auto
  show ?thesis
  proof (cases "a = b")
    case True
    then show ?thesis by (simp add: equals_def)
  next
    case False
    then show ?thesis using loop by (auto simp: equals_def)
  qed
qed

lemma size_coll_mset:
  "mset (entries (colls w' ! a')) = mset (entries (colls w ! a)) \<Longrightarrow> size_coll w' a' = size_coll w a"
  unfolding size_coll_def by (metis size_mset)

text \<open>
  C5. For collections of a well-formed store, \<open>equals\<close> returns true if and only if
  the two collections have the same size and every key of the receiver is a key of
  the argument with an equal value. The result depends on the entries of the two
  collections only as multisets, not on their order, and a collection equals
  itself (the identical reference); two different collection objects with the same
  entries in another order are equal: the collection of (1, a), (2, b) equals the
  collection of (2, b), (1, a).
\<close>

theorem equals_iff:
  assumes "world_ok w" and "a < length (colls w)" and "b < length (colls w)"
  shows "(equals w a (Some b) \<longleftrightarrow>
            size_coll w a = size_coll w b \<and>
            (\<forall>e\<in>set (entries (colls w ! a)). has w b (fst e) \<and> get w b (fst e) = Some (snd e))) \<and>
         (\<forall>w' a' b'. world_ok w' \<and> a' < length (colls w') \<and> b' < length (colls w') \<and>
            mset (entries (colls w' ! a')) = mset (entries (colls w ! a)) \<and>
            mset (entries (colls w' ! b')) = mset (entries (colls w ! b))
            \<longrightarrow> equals w' a' (Some b') = equals w a (Some b)) \<and>
         equals w a (Some a) \<and>
         equals
           (snd (new_Collection [(2::nat, ''b''), (1, ''a'')]
              (snd (new_Collection [(1::nat, ''a''), (2, ''b'')] (empty_world zeros)))))
           0 (Some 1)"
proof -
  have db: "distinct (map fst (entries (colls w ! b)))"
    using world_ok_nth[OF assms(1,3)] by (simp add: coll_ok_def)
  have 1: "equals w a (Some b) \<longleftrightarrow>
            size_coll w a = size_coll w b \<and>
            (\<forall>e\<in>set (entries (colls w ! a)). has w b (fst e) \<and> get w b (fst e) = Some (snd e))"
    unfolding equals_set[OF assms] using entry_iff_get[OF db] by auto
  have 2: "equals w' a' (Some b') = equals w a (Some b)"
    if "world_ok w'" "a' < length (colls w')" "b' < length (colls w')"
      "mset (entries (colls w' ! a')) = mset (entries (colls w ! a))"
      "mset (entries (colls w' ! b')) = mset (entries (colls w ! b))" for w' a' b'
    unfolding equals_set[OF assms] equals_set[OF that(1,2,3)]
    using size_coll_mset[OF that(4)] size_coll_mset[OF that(5)]
      mset_eq_setD[OF that(4)] mset_eq_setD[OF that(5)] by simp
  have 3: "equals w a (Some a)" by (simp add: equals_def)
  have 4: "equals
           (snd (new_Collection [(2::nat, ''b''), (1, ''a'')]
              (snd (new_Collection [(1::nat, ''a''), (2, ''b'')] (empty_world zeros)))))
           0 (Some 1)" by code_simp
  show ?thesis using 1 2 3 4 by blast
qed

theorem equals_iff_witness:
  "world_ok (snd (new_Collection [(2::nat, ''b''), (1, ''x'')]
     (snd (new_Collection [(1::nat, ''a''), (2, ''b'')] (empty_world zeros))))) \<and>
   size_coll (snd (new_Collection [(2::nat, ''b''), (1, ''x'')]
     (snd (new_Collection [(1::nat, ''a''), (2, ''b'')] (empty_world zeros))))) 0 = 2 \<and>
   size_coll (snd (new_Collection [(2::nat, ''b''), (1, ''x'')]
     (snd (new_Collection [(1::nat, ''a''), (2, ''b'')] (empty_world zeros))))) 1 = 2 \<and>
   get (snd (new_Collection [(2::nat, ''b''), (1, ''x'')]
     (snd (new_Collection [(1::nat, ''a''), (2, ''b'')] (empty_world zeros))))) 1 1 = Some ''x'' \<and>
   \<not> equals (snd (new_Collection [(2::nat, ''b''), (1, ''x'')]
     (snd (new_Collection [(1::nat, ''a''), (2, ''b'')] (empty_world zeros))))) 0 (Some 1) \<and>
   equals (snd (new_Collection [(2::nat, ''b''), (1, ''x'')]
     (snd (new_Collection [(1::nat, ''a''), (2, ''b'')] (empty_world zeros))))) 0 (Some 0)"
proof -
  let ?w = "snd (new_Collection [(2::nat, ''b''), (1, ''x'')]
     (snd (new_Collection [(1::nat, ''a''), (2, ''b'')] (empty_world zeros))))"
  have ok: "world_ok ?w" by (intro new_Collection_ok world_ok_empty_world)
  have a: "0 < length (colls ?w)" and b: "1 < length (colls ?w)"
    by (simp_all add: new_Collection_eq empty_world_def)
  have e: "entries (colls ?w ! 0) = [(1, ''a''), (2, ''b'')]" by code_simp
  have s: "size_coll ?w 0 = 2" "size_coll ?w 1 = 2" "get ?w 1 1 = Some ''x''" by code_simp+
  from equals_iff[OF ok a b] show ?thesis using ok s unfolding e by simp
qed

subsection \<open>filter and difference\<close>

lemma filter_loop_not_has:
  assumes "results < length (colls w)" "r \<noteq> results"
    and "array_cache (colls w ! results) = None" "keyArray_cache (colls w ! results) = None"
  shows "filter_loop (\<lambda>w' _ k _. \<not> has w' r k) this results es w =
         put_coll results ((colls w ! results)\<lparr>entries :=
           foldl (\<lambda>m (k, v). Map_set k v m) (entries (colls w ! results))
             (filter (\<lambda>e. \<not> has w r (fst e)) es)\<rparr>) w"
  using assms
proof (induction es arbitrary: w)
  case Nil
  then show ?case by (simp add: put_coll_def)
next
  case (Cons e es)
  show ?case
  proof (cases "has w r (fst e)")
    case True
    then show ?thesis using Cons.IH[OF Cons.prems] by simp
  next
    case False
    let ?w1 = "set_coll w results (fst e) (snd e)"
    have w1: "?w1 = put_coll results ((colls w ! results)\<lparr>array_cache := None, keyArray_cache := None,
        entries := Map_set (fst e) (snd e) (entries (colls w ! results))\<rparr>) w"
      by (rule set_coll_eq[OF Cons.prems(1)])
    have h: "has ?w1 r = has w r"
      using Cons.prems(1,2) by (simp add: w1 fun_eq_iff has_def put_coll_def)
    have p: "results < length (colls ?w1)" "array_cache (colls ?w1 ! results) = None"
      "keyArray_cache (colls ?w1 ! results) = None"
      using Cons.prems(1) by (simp_all add: w1 put_coll_def)
    have "filter_loop (\<lambda>w' _ k _. \<not> has w' r k) this results (e # es) w =
          filter_loop (\<lambda>w' _ k _. \<not> has w' r k) this results es ?w1"
      using False by simp
    also have "\<dots> = put_coll results ((colls ?w1 ! results)\<lparr>entries :=
           foldl (\<lambda>m (k, v). Map_set k v m) (entries (colls ?w1 ! results))
             (filter (\<lambda>e. \<not> has ?w1 r (fst e)) es)\<rparr>) ?w1"
      by (rule Cons.IH[OF p(1) Cons.prems(2) p(2,3)])
    also have "\<dots> = put_coll results ((colls w ! results)\<lparr>entries :=
           foldl (\<lambda>m (k, v). Map_set k v m) (entries (colls w ! results))
             (filter (\<lambda>e. \<not> has w r (fst e)) (e # es))\<rparr>) w"
      using False Cons.prems unfolding h by (simp add: w1 put_coll_def split_beta reset_None)
    finally show ?thesis .
  qed
qed

lemma distinct_keys_filter: "distinct (map fst es) \<Longrightarrow> distinct (map fst (filter P es))"
  by (rule distinct_map_filter)

lemma filter_coll_not_has:
  assumes "world_ok w" "this < length (colls w)" "r < length (colls w)"
  shows "filter_coll (\<lambda>w' _ k _. \<not> has w' r k) w this =
         (length (colls w),
          w\<lparr>colls := colls w @ [\<lparr>entries = filter (\<lambda>e. \<not> has w r (fst e)) (entries (colls w ! this)),
                                  array_cache = None, keyArray_cache = None\<rparr>]\<rparr>)"
proof -
  let ?w1 = "w\<lparr>colls := colls w @ [\<lparr>entries = [], array_cache = None, keyArray_cache = None\<rparr>]\<rparr>"
  let ?res = "length (colls w)"
  have n: "new_Collection [] w = (?res, ?w1)" by (simp add: new_Collection_eq)
  have h: "has ?w1 r = has w r" using assms(3) by (simp add: fun_eq_iff has_def nth_append)
  have e: "entries (colls ?w1 ! this) = entries (colls w ! this)" using assms(2) by (simp add: nth_append)
  have d: "distinct (map fst (filter (\<lambda>e. \<not> has w r (fst e)) (entries (colls w ! this))))"
    using world_ok_nth[OF assms(1,2)] by (simp add: coll_ok_def distinct_keys_filter)
  have "filter_loop (\<lambda>w' _ k _. \<not> has w' r k) this ?res (entries (colls w ! this)) ?w1 =
     put_coll ?res ((colls ?w1 ! ?res)\<lparr>entries :=
           foldl (\<lambda>m (k, v). Map_set k v m) (entries (colls ?w1 ! ?res))
             (filter (\<lambda>e. \<not> has ?w1 r (fst e)) (entries (colls w ! this)))\<rparr>) ?w1"
    using assms(3) by (intro filter_loop_not_has) simp_all
  then have l: "filter_loop (\<lambda>w' _ k _. \<not> has w' r k) this ?res (entries (colls ?w1 ! this)) ?w1 =
     w\<lparr>colls := colls w @ [\<lparr>entries = filter (\<lambda>e. \<not> has w r (fst e)) (entries (colls w ! this)),
                                  array_cache = None, keyArray_cache = None\<rparr>]\<rparr>"
    unfolding h e using foldl_Map_set_append[OF d, of "[]"] by (simp add: put_coll_def)
  show ?thesis unfolding filter_coll_def n Let_def prod.case l ..
qed

lemma foldl_set_coll_entries:
  "c < length (colls w) \<Longrightarrow> array_cache (colls w ! c) = None \<Longrightarrow> keyArray_cache (colls w ! c) = None \<Longrightarrow>
   foldl (\<lambda>w' (k, v). set_coll w' c k v) w es =
   put_coll c ((colls w ! c)\<lparr>entries := foldl (\<lambda>m (k, v). Map_set k v m) (entries (colls w ! c)) es\<rparr>) w"
proof (cases "es = []")
  case True
  then show ?thesis by (simp add: put_coll_def)
next
  case False
  assume a: "c < length (colls w)" "array_cache (colls w ! c) = None" "keyArray_cache (colls w ! c) = None"
  show ?thesis unfolding foldl_set_coll[OF a(1) False] reset_None[OF a(2,3)] ..
qed

lemma concat_one:
  assumes "world_ok w" "a < length (colls w)" "b < length (colls w)"
    and "fst ` set (entries (colls w ! a)) \<inter> fst ` set (entries (colls w ! b)) = {}"
  shows "concat_coll w a [b] =
         (length (colls w),
          w\<lparr>colls := colls w @ [\<lparr>entries = entries (colls w ! a) @ entries (colls w ! b),
                                  array_cache = None, keyArray_cache = None\<rparr>]\<rparr>)"
proof -
  let ?c = "length (colls w)"
  let ?w1 = "w\<lparr>colls := colls w @ [\<lparr>entries = entries (colls w ! a),
                             array_cache = None, keyArray_cache = None\<rparr>]\<rparr>"
  have cl: "clone w a = (?c, ?w1)" by (rule clone_eq[OF assms(1,2)])
  have eb: "entries (colls ?w1 ! b) = entries (colls w ! b)" using assms(3) by (simp add: nth_append)
  have db: "distinct (map fst (entries (colls w ! b)))"
    using world_ok_nth[OF assms(1,3)] by (simp add: coll_ok_def)
  have "foldl (\<lambda>w'' (key, val). set_coll w'' ?c key val) ?w1 (entries (colls w ! b)) =
        put_coll ?c ((colls ?w1 ! ?c)\<lparr>entries :=
          foldl (\<lambda>m (k, v). Map_set k v m) (entries (colls ?w1 ! ?c)) (entries (colls w ! b))\<rparr>) ?w1"
    by (intro foldl_set_coll_entries) simp_all
  then have f: "foldl (\<lambda>w'' (key, val). set_coll w'' ?c key val) ?w1 (entries (colls ?w1 ! b)) =
        w\<lparr>colls := colls w @ [\<lparr>entries = entries (colls w ! a) @ entries (colls w ! b),
                                  array_cache = None, keyArray_cache = None\<rparr>]\<rparr>"
    unfolding eb using foldl_Map_set_append[OF db assms(4)] by (simp add: put_coll_def)
  show ?thesis unfolding concat_coll_def cl Let_def prod.case using f by simp
qed

lemma difference_eq:
  assumes "world_ok w" "this < length (colls w)" "other < length (colls w)"
  shows "difference w this other =
    (length (colls w) + 2,
     w\<lparr>colls := colls w @
        [\<lparr>entries = filter (\<lambda>e. \<not> has w this (fst e)) (entries (colls w ! other)),
          array_cache = None, keyArray_cache = None\<rparr>,
         \<lparr>entries = filter (\<lambda>e. \<not> has w other (fst e)) (entries (colls w ! this)),
          array_cache = None, keyArray_cache = None\<rparr>,
         \<lparr>entries = filter (\<lambda>e. \<not> has w this (fst e)) (entries (colls w ! other)) @
                    filter (\<lambda>e. \<not> has w other (fst e)) (entries (colls w ! this)),
          array_cache = None, keyArray_cache = None\<rparr>]\<rparr>)"
proof -
  let ?A = "filter (\<lambda>e. \<not> has w this (fst e)) (entries (colls w ! other))"
  let ?B = "filter (\<lambda>e. \<not> has w other (fst e)) (entries (colls w ! this))"
  let ?n = "length (colls w)"
  let ?w1 = "w\<lparr>colls := colls w @ [\<lparr>entries = ?A, array_cache = None, keyArray_cache = None\<rparr>]\<rparr>"
  let ?w2 = "?w1\<lparr>colls := colls ?w1 @ [\<lparr>entries = ?B, array_cache = None, keyArray_cache = None\<rparr>]\<rparr>"
  have dt: "distinct (map fst (entries (colls w ! this)))"
    and dO: "distinct (map fst (entries (colls w ! other)))"
    using world_ok_nth[OF assms(1,2)] world_ok_nth[OF assms(1,3)] by (simp_all add: coll_ok_def)
  have f1: "filter_coll (\<lambda>w' _ k _. \<not> has w' this k) w other = (?n, ?w1)"
    by (rule filter_coll_not_has[OF assms(1,3,2)])
  have ok1: "world_ok ?w1" by (rule world_ok_alloc[OF assms(1)]) (simp add: dO distinct_keys_filter)
  have v1: "this < length (colls ?w1)" "other < length (colls ?w1)" using assms(2,3) by simp_all
  have h1: "has ?w1 other = has w other" using assms(3) by (simp add: fun_eq_iff has_def nth_append)
  have e1: "entries (colls ?w1 ! this) = entries (colls w ! this)" using assms(2) by (simp add: nth_append)
  have f2: "filter_coll (\<lambda>w' _ k _. \<not> has w' other k) ?w1 this = (Suc ?n, ?w2)"
    using filter_coll_not_has[OF ok1 v1] unfolding h1 e1 by simp
  have ok2: "world_ok ?w2" by (rule world_ok_alloc[OF ok1]) (simp add: dt distinct_keys_filter)
  have v2: "?n < length (colls ?w2)" "Suc ?n < length (colls ?w2)" by simp_all
  have ea: "entries (colls ?w2 ! ?n) = ?A" and eb: "entries (colls ?w2 ! Suc ?n) = ?B"
    by (simp_all add: nth_append)
  have disj: "fst ` set (entries (colls ?w2 ! ?n)) \<inter> fst ` set (entries (colls ?w2 ! Suc ?n)) = {}"
    unfolding ea eb by (auto simp: has_def Map_has_def)
  have c: "concat_coll ?w2 ?n [Suc ?n] =
      (length (colls ?w2),
       ?w2\<lparr>colls := colls ?w2 @ [\<lparr>entries = ?A @ ?B, array_cache = None, keyArray_cache = None\<rparr>]\<rparr>)"
    using concat_one[OF ok2 v2 disj] unfolding ea eb .
  show ?thesis unfolding difference_def f1 f2 Let_def prod.case c by simp
qed

text \<open>
  C6. For two collections of a well-formed store, \<open>difference\<close> returns a new
  collection whose entries are the entries of the argument whose key the receiver
  does not have, in the argument's order, followed by the entries of the receiver
  whose key the argument does not have, in the receiver's order. The collections
  that existed are unchanged. For A = (1, a), (2, b), (3, c) and
  B = (2, x), (3, c), (4, d), the difference of A with B is (4, d), (1, a).
\<close>

theorem difference_spec:
  assumes "world_ok w" and "this < length (colls w)" and "other < length (colls w)"
    and "difference w this other = (d, w')"
  shows "entries (colls w' ! d) =
           filter (\<lambda>e. \<not> has w this (fst e)) (entries (colls w ! other)) @
           filter (\<lambda>e. \<not> has w other (fst e)) (entries (colls w ! this)) \<and>
         \<not> d < length (colls w) \<and> d < length (colls w') \<and>
         take (length (colls w)) (colls w') = colls w \<and>
         varrs w' = varrs w \<and> karrs w' = karrs w \<and>
         entries (colls (snd (difference
             (snd (new_Collection [(2::nat, ''x''), (3, ''c''), (4, ''d'')]
                (snd (new_Collection [(1::nat, ''a''), (2, ''b''), (3, ''c'')] (empty_world zeros)))))
             0 1))
           ! fst (difference
             (snd (new_Collection [(2::nat, ''x''), (3, ''c''), (4, ''d'')]
                (snd (new_Collection [(1::nat, ''a''), (2, ''b''), (3, ''c'')] (empty_world zeros)))))
             0 1))
           = [(4, ''d''), (1, ''a'')]"
proof -
  have x: "entries (colls (snd (difference
             (snd (new_Collection [(2::nat, ''x''), (3, ''c''), (4, ''d'')]
                (snd (new_Collection [(1::nat, ''a''), (2, ''b''), (3, ''c'')] (empty_world zeros)))))
             0 1))
           ! fst (difference
             (snd (new_Collection [(2::nat, ''x''), (3, ''c''), (4, ''d'')]
                (snd (new_Collection [(1::nat, ''a''), (2, ''b''), (3, ''c'')] (empty_world zeros)))))
             0 1))
           = [(4, ''d''), (1, ''a'')]" by code_simp
  from assms(4) have d: "d = length (colls w) + 2" and w': "w' = snd (difference w this other)"
    unfolding difference_eq[OF assms(1,2,3)] by simp_all
  show ?thesis using x unfolding d w' difference_eq[OF assms(1,2,3)] by (simp add: nth_append)
qed

theorem difference_spec_witness:
  "world_ok (snd (new_Collection [(2::nat, ''x''), (5, ''e'')]
      (snd (new_Collection [(1::nat, ''a''), (2, ''b'')] (empty_world zeros))))) \<and>
   fst (difference (snd (new_Collection [(2::nat, ''x''), (5, ''e'')]
      (snd (new_Collection [(1::nat, ''a''), (2, ''b'')] (empty_world zeros))))) 0 1) = 4 \<and>
   entries (colls (snd (difference (snd (new_Collection [(2::nat, ''x''), (5, ''e'')]
      (snd (new_Collection [(1::nat, ''a''), (2, ''b'')] (empty_world zeros))))) 0 1)) ! 4)
     = [(5, ''e''), (1, ''a'')] \<and>
   take 2 (colls (snd (difference (snd (new_Collection [(2::nat, ''x''), (5, ''e'')]
      (snd (new_Collection [(1::nat, ''a''), (2, ''b'')] (empty_world zeros))))) 0 1)))
     = colls (snd (new_Collection [(2::nat, ''x''), (5, ''e'')]
      (snd (new_Collection [(1::nat, ''a''), (2, ''b'')] (empty_world zeros)))))"
proof -
  let ?w = "snd (new_Collection [(2::nat, ''x''), (5, ''e'')]
      (snd (new_Collection [(1::nat, ''a''), (2, ''b'')] (empty_world zeros))))"
  have ok: "world_ok ?w" by (intro new_Collection_ok world_ok_empty_world)
  have l: "length (colls ?w) = 2" by (simp add: new_Collection_eq empty_world_def)
  have a: "0 < length (colls ?w)" and b: "1 < length (colls ?w)" unfolding l by simp_all
  have p: "difference ?w 0 1 = (fst (difference ?w 0 1), snd (difference ?w 0 1))" by simp
  have d: "fst (difference ?w 0 1) = 4" by code_simp
  have f: "filter (\<lambda>e. \<not> has ?w 0 (fst e)) (entries (colls ?w ! 1)) @
           filter (\<lambda>e. \<not> has ?w 1 (fst e)) (entries (colls ?w ! 0)) = [(5, ''e''), (1, ''a'')]"
    by code_simp
  from difference_spec[OF ok a b p]
  have t1: "entries (colls (snd (difference ?w 0 1)) ! fst (difference ?w 0 1)) =
           filter (\<lambda>e. \<not> has ?w 0 (fst e)) (entries (colls ?w ! 1)) @
           filter (\<lambda>e. \<not> has ?w 1 (fst e)) (entries (colls ?w ! 0))"
    and t2: "take (length (colls ?w)) (colls (snd (difference ?w 0 1))) = colls ?w"
    by blast+
  show ?thesis using ok d t1[unfolded d f] t2[unfolded l] by simp
qed

subsection \<open>sort with the default comparator\<close>

lemma insert_by_default:
  "insert_by (\<lambda>a b. default_compare (snd a) (snd b) (fst a) (fst b)) x ys = insort_key snd x ys"
  by (induction ys) (auto simp: default_compare_def)

lemma Array_sort_default:
  "Array_sort (\<lambda>a b. default_compare (snd a) (snd b) (fst a) (fst b)) es = sort_key snd es"
  by (simp add: Array_sort_def sort_key_def insert_by_default[abs_def])

lemma distinct_keys_sort_key:
  assumes "distinct (map fst es)"
  shows "distinct (map fst (sort_key snd es))"
proof -
  have "mset (map fst (sort_key snd es)) = mset (map fst es)" by simp
  then show ?thesis using assms by (metis mset_eq_imp_distinct_iff)
qed

lemma sort_coll_default_eq:
  assumes "world_ok w" "this < length (colls w)"
  shows "sort_coll w this default_compare =
         put_coll this ((colls w ! this)\<lparr>array_cache := None, keyArray_cache := None,
           entries := sort_key snd (entries (colls w ! this))\<rparr>) w"
proof -
  have "distinct (map fst (entries (colls w ! this)))"
    using world_ok_nth[OF assms] by (simp add: coll_ok_def)
  then have "foldl (\<lambda>m (k, v). Map_set k v m) [] (sort_key snd (entries (colls w ! this)))
             = sort_key snd (entries (colls w ! this))"
    using foldl_Map_set_append[of "sort_key snd (entries (colls w ! this))" "[]"]
    by (simp add: distinct_keys_sort_key)
  then show ?thesis by (simp add: sort_coll_eq[OF assms(2)] Array_sort_default)
qed

text \<open>
  C7. The default comparator yields 1 when the first value is greater, 0 when the
  values are equal and -1 otherwise. \<open>sort\<close> with it, on a collection of a
  well-formed store, rebuilds the entries of the receiver as the stable ascending
  sort of the old entries by value: the values are in ascending order, the entries
  are the same as a multiset, and the entries of any one value keep their relative
  order. Both snapshot fields are \<^verbatim>\<open>null\<close> afterwards; the other collections and
  the arrays are unchanged. Sorting (1, 3), (2, 1), (3, 1) gives (2, 1), (3, 1),
  (1, 3).
\<close>

theorem sort_default:
  fixes w :: "('k, 'v::linorder) world"
  assumes "world_ok w" and "this < length (colls w)"
  shows "(\<forall>(x::'v) y (kx::'k) ky.
            default_compare x y kx ky = (if x > y then 1 else if x = y then 0 else - 1)) \<and>
         entries (colls (sort_coll w this default_compare) ! this)
           = sort_key snd (entries (colls w ! this)) \<and>
         sorted (map snd (entries (colls (sort_coll w this default_compare) ! this))) \<and>
         mset (entries (colls (sort_coll w this default_compare) ! this))
           = mset (entries (colls w ! this)) \<and>
         (\<forall>v. filter (\<lambda>e. snd e = v) (entries (colls (sort_coll w this default_compare) ! this))
               = filter (\<lambda>e. snd e = v) (entries (colls w ! this))) \<and>
         array_cache (colls (sort_coll w this default_compare) ! this) = None \<and>
         keyArray_cache (colls (sort_coll w this default_compare) ! this) = None \<and>
         (\<forall>r. r \<noteq> this \<longrightarrow> colls (sort_coll w this default_compare) ! r = colls w ! r) \<and>
         varrs (sort_coll w this default_compare) = varrs w \<and>
         karrs (sort_coll w this default_compare) = karrs w \<and>
         entries (colls (sort_coll
             (snd (new_Collection [(1::nat, 3::nat), (2, 1), (3, 1)] (empty_world zeros)))
             0 default_compare) ! 0)
           = [(2, 1), (3, 1), (1, 3)]"
proof -
  let ?w' = "sort_coll w this default_compare"
  have e: "entries (colls ?w' ! this) = sort_key snd (entries (colls w ! this))"
    and c: "array_cache (colls ?w' ! this) = None" "keyArray_cache (colls ?w' ! this) = None"
    and o: "\<forall>r. r \<noteq> this \<longrightarrow> colls ?w' ! r = colls w ! r"
    and a: "varrs ?w' = varrs w" "karrs ?w' = karrs w"
    using assms(2) by (simp_all add: sort_coll_default_eq[OF assms] put_coll_def)
  have d: "\<forall>(x::'v) y (kx::'k) ky.
            default_compare x y kx ky = (if x > y then 1 else if x = y then 0 else - 1)"
    by (simp add: default_compare_def)
  have x: "entries (colls (sort_coll
             (snd (new_Collection [(1::nat, 3::nat), (2, 1), (3, 1)] (empty_world zeros)))
             0 default_compare) ! 0)
           = [(2, 1), (3, 1), (1, 3)]" by code_simp
  have s: "sorted (map snd (entries (colls ?w' ! this)))"
    and m: "mset (entries (colls ?w' ! this)) = mset (entries (colls w ! this))"
    and f: "\<forall>v. filter (\<lambda>e. snd e = v) (entries (colls ?w' ! this))
               = filter (\<lambda>e. snd e = v) (entries (colls w ! this))"
    unfolding e by (simp_all add: sort_key_stable)
  show ?thesis using d e c o a x s m f by (intro conjI) assumption+
qed

theorem sort_default_witness:
  "world_ok (snd (new_Collection [(1::nat, 3::nat), (2, 1), (3, 1)] (empty_world zeros))) \<and>
   entries (colls (sort_coll (snd (array (snd (new_Collection [(1::nat, 3::nat), (2, 1), (3, 1)] (empty_world zeros))) 0))
      0 default_compare) ! 0) = [(2, 1), (3, 1), (1, 3)] \<and>
   array_cache (colls (snd (array (snd (new_Collection [(1::nat, 3::nat), (2, 1), (3, 1)] (empty_world zeros))) 0)) ! 0)
     = Some 0 \<and>
   array_cache (colls (sort_coll (snd (array (snd (new_Collection [(1::nat, 3::nat), (2, 1), (3, 1)] (empty_world zeros))) 0))
      0 default_compare) ! 0) = None"
proof -
  let ?w = "snd (array (snd (new_Collection [(1::nat, 3::nat), (2, 1), (3, 1)] (empty_world zeros))) 0)"
  have ok0: "world_ok (snd (new_Collection [(1::nat, 3::nat), (2, 1), (3, 1)] (empty_world zeros)))"
    by (intro new_Collection_ok world_ok_empty_world)
  have valid0: "0 < length (colls (snd (new_Collection [(1::nat, 3::nat), (2, 1), (3, 1)] (empty_world zeros))))"
    by (simp add: new_Collection_eq empty_world_def)
  have ok: "world_ok ?w" and valid: "0 < length (colls ?w)"
    using array_ok[OF ok0 valid0] valid0 by simp_all
  have e: "sort_key snd (entries (colls ?w ! 0)) = [(2, 1), (3, 1), (1, 3)]" by code_simp
  have c: "array_cache (colls ?w ! 0) = Some 0" by code_simp
  from sort_default[OF ok valid]
  have t1: "entries (colls (sort_coll ?w 0 default_compare) ! 0) = sort_key snd (entries (colls ?w ! 0))"
    and t2: "array_cache (colls (sort_coll ?w 0 default_compare) ! 0) = None"
    by blast+
  show ?thesis using ok0 t1[unfolded e] t2 c by simp
qed

subsection \<open>random and randomKey on an empty collection\<close>

lemma index_Nil [simp]: "index [] i = None"
  by (simp add: index_def)

text \<open>
  C8. On an empty collection \<open>random\<close> and \<open>randomKey\<close> without an amount return
  \<^verbatim>\<open>undefined\<close>: the snapshot is empty, the index drawn is
  \<^verbatim>\<open>Math.floor(Math.random() * 0)\<close>, and the read past the end of the array is
  \<^verbatim>\<open>undefined\<close>. No error is raised, whatever the random source gives.
\<close>

theorem random_empty:
  assumes "size_coll w this = 0"
  shows "fst (random w this None) = Single None \<and> fst (randomKey w this None) = Single None"
proof -
  have e: "entries (colls w ! this) = []" using assms by (simp add: size_coll_def)
  have v: "fst (random w this None) = Single None"
    using array_of_empty[OF e]
    by (simp add: random_def Math_random_def Let_def split_beta)
  have k: "fst (randomKey w this None) = Single None"
    using keyArray_of_empty[OF e]
    by (simp add: randomKey_def Math_random_def Let_def split_beta)
  show ?thesis using v k by simp
qed

theorem random_empty_witness:
  "size_coll (snd (new_Collection ([] :: (nat \<times> string) list) (empty_world halves))) 0 = 0 \<and>
   fst (random (snd (new_Collection ([] :: (nat \<times> string) list) (empty_world halves))) 0 None) = Single None \<and>
   fst (randomKey (snd (new_Collection ([] :: (nat \<times> string) list) (empty_world halves))) 0 None) = Single None"
proof -
  let ?w = "snd (new_Collection ([] :: (nat \<times> string) list) (empty_world halves))"
  have s: "size_coll ?w 0 = 0" by (simp add: new_Collection_eq empty_world_def size_coll_def)
  from random_empty[OF s] show ?thesis using s by simp
qed

subsection \<open>equals on null\<close>

text \<open>
  C9. \<open>equals\<close> called with \<^verbatim>\<open>null\<close> or \<^verbatim>\<open>undefined\<close> returns false, on every
  collection; it raises no error.
\<close>

theorem equals_null: "equals w this None = False"
  by (simp add: equals_def)

theorem equals_null_witness:
  "equals (snd (new_Collection [(1::nat, ''a'')] (empty_world zeros))) 0 None = False"
  by (rule equals_null)

subsection \<open>clone and concat\<close>

lemma sweep_loop_frame:
  "r < length (colls w) \<Longrightarrow> this \<noteq> r \<Longrightarrow>
   colls (sweep_loop fn r es w) ! this = colls w ! this \<and>
   varrs (sweep_loop fn r es w) = varrs w \<and> karrs (sweep_loop fn r es w) = karrs w"
  by (induction es arbitrary: w) (simp_all add: delete_eq put_coll_def)

lemma apply_operation_frame:
  assumes "world_ok w" "r < length (colls w)" "this \<noteq> r"
  shows "colls (apply_operation r w op) ! this = colls w ! this \<and>
         take (length (varrs w)) (varrs (apply_operation r w op)) = varrs w \<and>
         take (length (karrs w)) (karrs (apply_operation r w op)) = karrs w"
proof (cases op)
  case (Set k v)
  then show ?thesis using assms by (simp add: set_coll_eq put_coll_def)
next
  case (Delete k)
  then show ?thesis using assms by (simp add: delete_eq put_coll_def)
next
  case Clear
  then show ?thesis using assms by (simp add: clear_eq put_coll_def)
next
  case (Sweep fn)
  then show ?thesis using sweep_loop_frame[OF assms(2,3)] by (simp add: sweep_def Let_def)
next
  case (Sort cmp)
  then show ?thesis using assms by (simp add: sort_coll_eq put_coll_def)
next
  case Array
  then show ?thesis
    using assms(3) array_spec(2,5,6)[OF assms(1,2), of "fst (array w r)" "snd (array w r)"] by simp
next
  case KeyArray
  then show ?thesis
    using assms(3) keyArray_spec(2,5,6)[OF assms(1,2), of "fst (keyArray w r)" "snd (keyArray w r)"] by simp
next
  case (Random amount)
  then show ?thesis
    using assms(3) random_frame(1,2,3)[OF assms(1,2), of amount "fst (random w r amount)" "snd (random w r amount)"]
    by auto
next
  case (RandomKey amount)
  then show ?thesis
    using assms(3) randomKey_frame(1,2,3)[OF assms(1,2), of amount "fst (randomKey w r amount)" "snd (randomKey w r amount)"]
    by auto
qed

lemma run_frame:
  "world_ok w \<Longrightarrow> r < length (colls w) \<Longrightarrow> this \<noteq> r \<Longrightarrow>
   colls (run r ops w) ! this = colls w ! this \<and>
   take (length (varrs w)) (varrs (run r ops w)) = varrs w \<and>
   take (length (karrs w)) (karrs (run r ops w)) = karrs w"
proof (induction ops arbitrary: w)
  case Nil
  then show ?case by (simp add: run_def)
next
  case (Cons op ops)
  let ?w1 = "apply_operation r w op"
  note f = apply_operation_frame[OF Cons.prems, of op]
  note o = apply_operation_ok[OF Cons.prems(1,2), of op]
  have ih: "colls (run r ops ?w1) ! this = colls ?w1 ! this \<and>
     take (length (varrs ?w1)) (varrs (run r ops ?w1)) = varrs ?w1 \<and>
     take (length (karrs ?w1)) (karrs (run r ops ?w1)) = karrs ?w1"
    using Cons.IH[of ?w1] o Cons.prems by simp
  have r: "run r (op # ops) w = run r ops ?w1" by (simp add: run_def)
  show ?case unfolding r using f ih prefix_trans[of "varrs w" "varrs ?w1" "varrs (run r ops ?w1)"]
      prefix_trans[of "karrs w" "karrs ?w1" "karrs (run r ops ?w1)"] by simp
qed

text \<open>
  C10. \<open>concat\<close> without arguments is \<open>clone\<close>. It returns a reference to a new
  object, different from the receiver and from every object of the store, whose
  entries are the receiver's entries in the same order; the receiver, the other
  collections and the arrays are unchanged. Whatever sequence of operations is then
  run on the result, the receiver object (its entries and its snapshot fields) and
  every array that existed stay as they were.
\<close>

theorem concat_none:
  assumes "world_ok w" and "this < length (colls w)"
    and "concat_coll w this [] = (c, w')"
  shows "concat_coll w this [] = clone w this \<and>
         c \<noteq> this \<and> \<not> c < length (colls w) \<and> c < length (colls w') \<and>
         entries (colls w' ! c) = entries (colls w ! this) \<and>
         take (length (colls w)) (colls w') = colls w \<and>
         varrs w' = varrs w \<and> karrs w' = karrs w \<and>
         (\<forall>ops. colls (run c ops w') ! this = colls w ! this \<and>
                take (length (varrs w)) (varrs (run c ops w')) = varrs w \<and>
                take (length (karrs w)) (karrs (run c ops w')) = karrs w)"
proof -
  have cc: "concat_coll w this [] = clone w this"
    by (simp add: concat_coll_def split_beta)
  note ce = clone_eq[OF assms(1,2)]
  from assms(3) cc ce have c: "c = length (colls w)"
    and w': "w' = w\<lparr>colls := colls w @ [\<lparr>entries = entries (colls w ! this),
                             array_cache = None, keyArray_cache = None\<rparr>]\<rparr>"
    by simp_all
  have ok': "world_ok w'"
    using new_Collection_ok[OF assms(1), of "entries (colls w ! this)"] ce w'
    by (simp add: clone_def)
  have valid: "c < length (colls w')" and neq: "this \<noteq> c" using assms(2) by (simp_all add: c w')
  have old: "colls w' ! this = colls w ! this" "varrs w' = varrs w" "karrs w' = karrs w"
    using assms(2) by (simp_all add: w' nth_append)
  have "colls (run c ops w') ! this = colls w ! this \<and>
        take (length (varrs w)) (varrs (run c ops w')) = varrs w \<and>
        take (length (karrs w)) (karrs (run c ops w')) = karrs w" for ops
    using run_frame[OF ok' valid neq, of ops] old by simp
  then show ?thesis using cc valid neq old by (simp add: c w')
qed

theorem concat_none_witness:
  "world_ok (snd (new_Collection [(1::nat, ''a''), (2, ''b'')] (empty_world zeros))) \<and>
   concat_coll (snd (new_Collection [(1::nat, ''a''), (2, ''b'')] (empty_world zeros))) 0 []
     = clone (snd (new_Collection [(1::nat, ''a''), (2, ''b'')] (empty_world zeros))) 0 \<and>
   fst (concat_coll (snd (new_Collection [(1::nat, ''a''), (2, ''b'')] (empty_world zeros))) 0 []) = 1 \<and>
   entries (colls (snd (concat_coll (snd (new_Collection [(1::nat, ''a''), (2, ''b'')] (empty_world zeros))) 0 [])) ! 1)
     = [(1, ''a''), (2, ''b'')] \<and>
   entries (colls (run 1 [Set 1 ''z'', Delete 2]
       (snd (concat_coll (snd (new_Collection [(1::nat, ''a''), (2, ''b'')] (empty_world zeros))) 0 []))) ! 1)
     = [(1, ''z'')] \<and>
   entries (colls (run 1 [Set 1 ''z'', Delete 2]
       (snd (concat_coll (snd (new_Collection [(1::nat, ''a''), (2, ''b'')] (empty_world zeros))) 0 []))) ! 0)
     = [(1, ''a''), (2, ''b'')]"
proof -
  let ?w = "snd (new_Collection [(1::nat, ''a''), (2, ''b'')] (empty_world zeros))"
  have ok: "world_ok ?w" by (intro new_Collection_ok world_ok_empty_world)
  have valid: "0 < length (colls ?w)" by (simp add: new_Collection_eq empty_world_def)
  have p: "concat_coll ?w 0 [] = (fst (concat_coll ?w 0 []), snd (concat_coll ?w 0 []))" by simp
  have e: "entries (colls ?w ! 0) = [(1, ''a''), (2, ''b'')]"
    by (simp add: new_Collection_eq empty_world_def)
  have c: "fst (concat_coll ?w 0 []) = 1" by code_simp
  have m: "entries (colls (run 1 [Set 1 ''z'', Delete 2] (snd (concat_coll ?w 0 []))) ! 1) = [(1, ''z'')]"
    by code_simp
  from concat_none[OF ok valid p]
  have t1: "concat_coll ?w 0 [] = clone ?w 0"
    and t2: "entries (colls (snd (concat_coll ?w 0 [])) ! fst (concat_coll ?w 0 [])) = entries (colls ?w ! 0)"
    and t3: "colls (run (fst (concat_coll ?w 0 [])) [Set 1 ''z'', Delete 2] (snd (concat_coll ?w 0 []))) ! 0
             = colls ?w ! 0"
    by blast+
  show ?thesis using ok t1 t2[unfolded c e] t3[unfolded c] c e m by simp
qed

end
